theory Spec2Isabelle
  imports Main "HOL-Library.Word" "HOL-Library.Monad_Syntax"
begin

section \<open>Text primitives of the host language\<close>

text \<open>
  Text is modelled as HOL strings: lists of characters whose code points lie below 256.
  The character classes below are Python's own on that range: \<open>str.isspace\<close> (also what
  \<open>\s\<close> matches and what \<open>str.strip\<close> removes), the decimal digits matched by \<open>\d\<close>,
  and \<open>str.lower\<close>.
\<close>

definition isdigit :: "char \<Rightarrow> bool" where
  "isdigit c = ((48::nat) \<le> of_char c \<and> of_char c \<le> (57::nat))"

definition isspace :: "char \<Rightarrow> bool" where
  "isspace c = ((of_char c :: nat) \<in> {9, 10, 11, 12, 13, 28, 29, 30, 31, 32, 133, 160})"

definition lower_char :: "char \<Rightarrow> char" where
  "lower_char c =
     (let n = (of_char c :: nat)
      in if (65 \<le> n \<and> n \<le> 90) \<or> (192 \<le> n \<and> n \<le> 222 \<and> n \<noteq> 215)
         then char_of (n + 32) else c)"

definition lower :: "string \<Rightarrow> string" where
  "lower s = map lower_char s"

definition lstrip :: "string \<Rightarrow> string" where
  "lstrip s = dropWhile isspace s"

definition rstrip :: "string \<Rightarrow> string" where
  "rstrip s = rev (dropWhile isspace (rev s))"

definition strip :: "string \<Rightarrow> string" where
  "strip s = rstrip (lstrip s)"

text \<open>
  An exception of the host language is a value: a function that can raise returns either
  the exception or its result, and \<open>and_then\<close> passes a result on and lets an exception
  through.
\<close>

datatype py_error = ValueError

definition and_then :: "py_error + 'a \<Rightarrow> ('a \<Rightarrow> py_error + 'b) \<Rightarrow> py_error + 'b" where
  "and_then r f = (case r of Inl e \<Rightarrow> Inl e | Inr x \<Rightarrow> f x)"

text \<open>
  The interpreter converts between integers and decimal text only up to a number of digits,
  4300 unless it is configured otherwise, which this program never does. Beyond that
  \<open>int(s)\<close>, \<open>str(n)\<close> and the formatting of an integer raise ValueError.
\<close>

definition max_str_digits :: nat where
  "max_str_digits = 4300"

text \<open>The number that a run of decimal digits denotes, and the decimal digits of a number.\<close>

definition digit_val :: "char \<Rightarrow> int" where
  "digit_val c = int (of_char c) - 48"

definition digits_value :: "string \<Rightarrow> int" where
  "digits_value s = foldl (\<lambda>a c. 10 * a + digit_val c) 0 s"

definition digit_char :: "nat \<Rightarrow> char" where
  "digit_char d = char_of (48 + d)"

fun digits :: "nat \<Rightarrow> string" where
  "digits n = (if n < 10 then [digit_char n] else digits (n div 10) @ [digit_char (n mod 10)])"

declare digits.simps [simp del]

text \<open>
  \<open>int(s)\<close> on a run of decimal digits: every digit counts towards the limit, leading
  zeros too.
\<close>

definition py_int :: "string \<Rightarrow> py_error + int" where
  "py_int s = (if max_str_digits < length s then Inl ValueError else Inr (digits_value s))"

text \<open>\<open>str(n)\<close>, also \<open>{n}\<close> in a formatted string: the sign does not count towards the limit.\<close>

definition str_int :: "int \<Rightarrow> py_error + string" where
  "str_int n =
     (if max_str_digits < length (digits (nat \<bar>n\<bar>)) then Inl ValueError
      else Inr (if n < 0 then CHR ''-'' # digits (nat (- n)) else digits (nat n)))"

text \<open>The format specification \<open>{n:02d}\<close>: sign first, then zeros up to a width of two.\<close>

definition fmt_02d :: "int \<Rightarrow> py_error + string" where
  "fmt_02d n =
     (if max_str_digits < length (digits (nat \<bar>n\<bar>)) then Inl ValueError
      else Inr (if n < 0
                then CHR ''-'' # replicate (1 - length (digits (nat (- n)))) CHR ''0''
                       @ digits (nat (- n))
                else replicate (2 - length (digits (nat n))) CHR ''0'' @ digits (nat n)))"

text \<open>\<open>sep.join(parts)\<close>.\<close>

fun join :: "string \<Rightarrow> string list \<Rightarrow> string" where
  "join sep [] = []"
| "join sep [p] = p"
| "join sep (p # q # ps) = p @ sep @ join sep (q # ps)"

section \<open>Regular expressions\<close>

text \<open>
  The patterns of the source are sequences of the items below. A character class is
  \<open>\d\<close>, \<open>\s\<close>, a bracket class of ranges and single characters, or a negated bracket
  class; an alternation of single characters such as \<open>(d|h|m)\<close> is the class of those
  characters. Quantifiers are greedy and backtrack, as in Python's \<open>re\<close>.
\<close>

datatype cls = Digit | Space | Among "(char \<times> char) list" string | Except string

fun has :: "cls \<Rightarrow> char \<Rightarrow> bool" where
  "has Digit c = isdigit c"
| "has Space c = isspace c"
| "has (Among rs cs) c =
     (c \<in> set cs \<or> list_ex (\<lambda>(a, b). (of_char a :: nat) \<le> of_char c \<and> (of_char c :: nat) \<le> of_char b) rs)"
| "has (Except cs) c = (c \<notin> set cs)"

datatype item =
    Bos               \<comment> \<open>\<open>^\<close>\<close>
  | Eos               \<comment> \<open>\<open>$\<close>: at the end, or before a newline that ends the text\<close>
  | Lit string        \<comment> \<open>literal characters\<close>
  | Chr cls           \<comment> \<open>one character of the class\<close>
  | Star cls          \<comment> \<open>\<open>c*\<close>\<close>
  | Plus cls          \<comment> \<open>\<open>c+\<close>\<close>
  | Grp_chr cls       \<comment> \<open>\<open>(c)\<close>, capturing\<close>
  | Grp_plus cls      \<comment> \<open>\<open>(c+)\<close>, capturing\<close>
  | Ahead cls         \<comment> \<open>\<open>(?=c)\<close>\<close>

text \<open>\<open>greedy f lo hi\<close> tries the repetition counts \<open>hi, hi - 1, \<dots>, lo\<close> in that order.\<close>

primrec greedy :: "(nat \<Rightarrow> 'a option) \<Rightarrow> nat \<Rightarrow> nat \<Rightarrow> 'a option" where
  "greedy f lo 0 = (if lo = 0 then f 0 else None)"
| "greedy f lo (Suc n) =
     (if Suc n < lo then None
      else case f (Suc n) of Some r \<Rightarrow> Some r | None \<Rightarrow> greedy f lo n)"

text \<open>
  \<open>rmatch p i s g\<close> matches the pattern \<open>p\<close> against the text \<open>s\<close>, which starts at
  position \<open>i\<close> of the subject, with the groups \<open>g\<close> captured so far; it gives the groups
  and the end position of the first match in backtracking order.
\<close>

primrec rmatch :: "item list \<Rightarrow> nat \<Rightarrow> string \<Rightarrow> string list \<Rightarrow> (string list \<times> nat) option" where
  "rmatch [] i s g = Some (g, i)"
| "rmatch (it # its) i s g =
     (case it of
        Bos \<Rightarrow> if i = 0 then rmatch its i s g else None
      | Eos \<Rightarrow> if s = [] \<or> s = [CHR 0x0A] then rmatch its i s g else None
      | Lit t \<Rightarrow>
          if take (length t) s = t then rmatch its (i + length t) (drop (length t) s) g else None
      | Chr c \<Rightarrow>
          (case s of [] \<Rightarrow> None
           | x # xs \<Rightarrow> if has c x then rmatch its (Suc i) xs g else None)
      | Star c \<Rightarrow>
          greedy (\<lambda>k. rmatch its (i + k) (drop k s) g) 0 (length (takeWhile (has c) s))
      | Plus c \<Rightarrow>
          greedy (\<lambda>k. rmatch its (i + k) (drop k s) g) 1 (length (takeWhile (has c) s))
      | Grp_chr c \<Rightarrow>
          (case s of [] \<Rightarrow> None
           | x # xs \<Rightarrow> if has c x then rmatch its (Suc i) xs (g @ [[x]]) else None)
      | Grp_plus c \<Rightarrow>
          greedy (\<lambda>k. rmatch its (i + k) (drop k s) (g @ [take k s])) 1
            (length (takeWhile (has c) s))
      | Ahead c \<Rightarrow>
          (case s of [] \<Rightarrow> None
           | x # xs \<Rightarrow> if has c x then rmatch its i s g else None))"

text \<open>\<open>re.match\<close>: a match at the start of the text; the result is the list of groups.\<close>

definition re_match :: "item list \<Rightarrow> string \<Rightarrow> string list option" where
  "re_match p s = map_option fst (rmatch p 0 s [])"

text \<open>\<open>re.search\<close>: the leftmost match; start position, groups and end position.\<close>

fun search_at :: "item list \<Rightarrow> nat \<Rightarrow> string \<Rightarrow> (nat \<times> string list \<times> nat) option" where
  "search_at p i [] = map_option (Pair i) (rmatch p i [] [])"
| "search_at p i (x # xs) =
     (case rmatch p i (x # xs) [] of
        Some r \<Rightarrow> Some (i, r)
      | None \<Rightarrow> search_at p (Suc i) xs)"

definition re_search :: "item list \<Rightarrow> string \<Rightarrow> (nat \<times> string list \<times> nat) option" where
  "re_search p s = search_at p 0 s"

text \<open>
  \<open>re.findall\<close>: the groups of every match, left to right, without overlap. After an empty
  match the scan moves on by one character.
\<close>

function findall_at :: "item list \<Rightarrow> nat \<Rightarrow> string \<Rightarrow> string list list" where
  "findall_at p i s =
     (case rmatch p i s [] of
        None \<Rightarrow> (case s of [] \<Rightarrow> [] | x # xs \<Rightarrow> findall_at p (Suc i) xs)
      | Some (g, j) \<Rightarrow>
          g # (case s of [] \<Rightarrow> []
               | x # xs \<Rightarrow> if j \<le> i then findall_at p (Suc i) xs
                           else findall_at p j (drop (j - i) (x # xs))))"
  by pat_completeness auto
termination
  by (relation "measure (\<lambda>(p, i, s). length s)") auto

declare findall_at.simps [simp del]

definition re_findall :: "item list \<Rightarrow> string \<Rightarrow> string list list" where
  "re_findall p s = findall_at p 0 s"

section \<open>Duration codec (duration.py)\<close>

text \<open>The three patterns of \<open>parse_to_minutes\<close>.\<close>

definition colon :: cls where
  "colon = Among [] '':''"

definition hms_pattern :: "item list" where
  \<comment> \<open>\<open>^(\d+):(\d+):(\d+)$\<close>\<close>
  "hms_pattern = [Bos, Grp_plus Digit, Chr colon, Grp_plus Digit, Chr colon, Grp_plus Digit, Eos]"

definition token_pattern :: "item list" where
  \<comment> \<open>\<open>(\d+)\s*(d|h|m)\<close>\<close>
  "token_pattern = [Grp_plus Digit, Star Space, Grp_chr (Among [] ''dhm'')]"

definition number_pattern :: "item list" where
  \<comment> \<open>\<open>^\d+$\<close>\<close>
  "number_pattern = [Bos, Plus Digit, Eos]"

text \<open>The body of the loop over the tokens, \<open>v = int(val)\<close> and \<open>total += v * weight\<close>, and the loop.\<close>

definition add_token :: "int \<Rightarrow> string list \<Rightarrow> py_error + int" where
  "add_token tot tok =
     and_then (py_int (tok ! 0)) (\<lambda>v.
       let unit = tok ! 1
       in Inr (if unit = ''d'' then tot + v * 1440
               else if unit = ''h'' then tot + v * 60
               else tot + v))"

fun add_tokens :: "int \<Rightarrow> string list list \<Rightarrow> py_error + int" where
  "add_tokens tot [] = Inr tot"
| "add_tokens tot (tok # toks) = and_then (add_token tot tok) (\<lambda>tot'. add_tokens tot' toks)"

text \<open>
  \<open>parse_to_minutes\<close> returns a number of minutes or \<open>None\<close>, unless a conversion raises.
  In the H:M:S form all three fields are converted, the seconds too.
\<close>

definition parse_to_minutes :: "string \<Rightarrow> py_error + int option" where
  "parse_to_minutes text0 =
     (let text = lower (strip text0)
      in if text = [] then Inr None
         else case re_match hms_pattern text of
           Some g \<Rightarrow>
             and_then (py_int (g ! 0)) (\<lambda>h.
             and_then (py_int (g ! 1)) (\<lambda>mn.
             and_then (py_int (g ! 2)) (\<lambda>sec.
               Inr (Some (h * 60 + mn)))))
         | None \<Rightarrow>
             (let toks = re_findall token_pattern text
              in and_then (add_tokens 0 toks) (\<lambda>tot.
                   if toks \<noteq> [] then Inr (Some tot)
                   else if re_match number_pattern text \<noteq> None
                   then and_then (py_int text) (\<lambda>v. Inr (Some (v * 60)))
                   else Inr None)))"

definition minutes_to_hms :: "int \<Rightarrow> py_error + string" where
  "minutes_to_hms total_minutes =
     (let h = total_minutes div 60; m = total_minutes mod 60
      in and_then (str_int h) (\<lambda>sh.
         and_then (str_int m) (\<lambda>sm.
           Inr (sh @ '':'' @ sm @ '':0''))))"

definition minutes_to_slurm :: "int \<Rightarrow> py_error + string" where
  "minutes_to_slurm total_minutes =
     (let total_h = total_minutes div 60; m = total_minutes mod 60
      in if total_h \<ge> 24
         then (let d = total_h div 24; rem_h = total_h mod 24
               in and_then (str_int d) (\<lambda>sd.
                  and_then (fmt_02d rem_h) (\<lambda>sh.
                  and_then (fmt_02d m) (\<lambda>sm.
                    Inr (sd @ ''-'' @ sh @ '':'' @ sm @ '':00'')))))
         else and_then (fmt_02d total_h) (\<lambda>sh.
              and_then (fmt_02d m) (\<lambda>sm.
                Inr (sh @ '':'' @ sm @ '':00''))))"

text \<open>\<open>if n: parts.append(f"{n}u")\<close>: the part of a unit, if its number is not zero.\<close>

definition part :: "int \<Rightarrow> string \<Rightarrow> py_error + string list" where
  "part n u = (if n \<noteq> 0 then and_then (str_int n) (\<lambda>sn. Inr [sn @ u]) else Inr [])"

definition minutes_to_human :: "int \<Rightarrow> py_error + string" where
  "minutes_to_human total_minutes =
     (if total_minutes \<le> 0 then Inr ''0m''
      else
        (let d = total_minutes div 1440;
             h = (total_minutes mod 1440) div 60;
             m = total_minutes mod 60
         in and_then (part d ''d'') (\<lambda>pd.
            and_then (part h ''h'') (\<lambda>ph.
            and_then (part m ''m'') (\<lambda>pm.
              let parts = pd @ ph @ pm
              in Inr (if parts \<noteq> [] then join '' '' parts else ''0m''))))))"

section \<open>More text primitives\<close>

text \<open>
  \<open>str.splitlines\<close>: the line boundaries below code point 256 are line feed, vertical
  tab, form feed, carriage return (with a following line feed taken as one boundary), the
  file, group and record separators and next-line. A boundary at the very end opens no
  further line.
\<close>

definition is_linebreak :: "char \<Rightarrow> bool" where
  "is_linebreak c = ((of_char c :: nat) \<in> {10, 11, 12, 13, 28, 29, 30, 133})"

fun splitlines_from :: "string \<Rightarrow> string \<Rightarrow> string list" where
  "splitlines_from cur [] = (if cur = [] then [] else [cur])"
| "splitlines_from cur (c # cs) =
     (if c = CHR 0x0D then
        (case cs of
           [] \<Rightarrow> cur # splitlines_from [] cs
         | d # ds \<Rightarrow> if d = CHR 0x0A then cur # splitlines_from [] ds
                     else cur # splitlines_from [] cs)
      else if is_linebreak c then cur # splitlines_from [] cs
      else splitlines_from (cur @ [c]) cs)"

definition splitlines :: "string \<Rightarrow> string list" where
  "splitlines s = splitlines_from [] s"

text \<open>\<open>s.split(sep)\<close> for a one-character separator: empty fields are kept.\<close>

fun split_from :: "char \<Rightarrow> string \<Rightarrow> string \<Rightarrow> string list" where
  "split_from sep cur [] = [cur]"
| "split_from sep cur (c # cs) =
     (if c = sep then cur # split_from sep [] cs else split_from sep (cur @ [c]) cs)"

definition split :: "char \<Rightarrow> string \<Rightarrow> string list" where
  "split sep s = split_from sep [] s"

text \<open>\<open>s.split(sep, 1)\<close>: at most one split, at the first separator.\<close>

definition split1 :: "char \<Rightarrow> string \<Rightarrow> string list" where
  "split1 sep s =
     (if sep \<in> set s then [takeWhile (\<lambda>c. c \<noteq> sep) s, tl (dropWhile (\<lambda>c. c \<noteq> sep) s)]
      else [s])"

text \<open>\<open>sub in s\<close>.\<close>

fun contains :: "string \<Rightarrow> string \<Rightarrow> bool" where
  "contains sub [] = (sub = [])"
| "contains sub (c # cs) = (take (length sub) (c # cs) = sub \<or> contains sub cs)"

text \<open>\<open>a or b\<close> on strings and on integers.\<close>

definition or_str :: "string \<Rightarrow> string \<Rightarrow> string" where
  "or_str a b = (if a \<noteq> [] then a else b)"

definition or_int :: "int \<Rightarrow> int \<Rightarrow> int" where
  "or_int a b = (if a \<noteq> 0 then a else b)"

text \<open>
  Indexing a list raises IndexError out of range; in the parsers below \<open>None\<close> stands for
  that exception leaving the function.
\<close>

definition idx :: "'a list \<Rightarrow> nat \<Rightarrow> 'a option" where
  "idx xs k = (if k < length xs then Some (xs ! k) else None)"

section \<open>Input validation (validators.py)\<close>

definition name_pattern :: "item list" where
  \<comment> \<open>\<open>^[a-zA-Z0-9_.-]+$\<close>\<close>
  "name_pattern =
     [Bos, Plus (Among [(CHR ''a'', CHR ''z''), (CHR ''A'', CHR ''Z''), (CHR ''0'', CHR ''9'')] ''_.-''), Eos]"

definition is_int :: "string \<Rightarrow> bool" where
  "is_int v = (re_match number_pattern (strip v) \<noteq> None)"

definition is_name :: "string \<Rightarrow> bool" where
  "is_name v = (re_match name_pattern (strip v) \<noteq> None)"

section \<open>Remote executor (ssh.py)\<close>

text \<open>
  One call spawns one local ssh process. What that process does is the environment's
  choice: it cannot be started (the exception text is given), it does not finish within
  the timeout, or it exits with its two output streams and its status.
\<close>

type_synonym byte = "8 word"

datatype ssh_process =
    Start_fails string
  | Times_out
  | Exits "byte list" "byte list" int

text \<open>
  Decoding bytes to text belongs to the standard library and, for the text mode of
  \<open>subprocess.run\<close>, to the locale, so both decoders are parameters: the strict one gives
  the text or the message of the decoding error, the replacing one always gives text.
\<close>

record codec =
  decode_strict :: "byte list \<Rightarrow> string + string"
  decode_replace :: "byte list \<Rightarrow> string"

datatype py_exception = TimeoutExpired | Other_exception string

text \<open>Text mode reads with universal newlines: \<open>\r\n\<close> and \<open>\r\<close> become \<open>\n\<close>.\<close>

fun translate_newlines :: "string \<Rightarrow> string" where
  "translate_newlines [] = []"
| "translate_newlines (c # cs) =
     (if c = CHR 0x0D then
        (case cs of
           [] \<Rightarrow> CHR 0x0A # translate_newlines cs
         | d # ds \<Rightarrow> if d = CHR 0x0A then CHR 0x0A # translate_newlines ds
                     else CHR 0x0A # translate_newlines cs)
      else c # translate_newlines cs)"

text \<open>
  \<open>subprocess.run(..., capture_output=True, text=True, timeout=timeout)\<close>: the completed
  process or the exception raised, and whether the child was killed (on timeout the library
  kills the child and waits for it before raising).
\<close>

definition subprocess_run :: "codec \<Rightarrow> ssh_process \<Rightarrow> (py_exception + string \<times> string \<times> int) \<times> bool" where
  "subprocess_run cd p =
     (case p of
        Start_fails e \<Rightarrow> (Inl (Other_exception e), False)
      | Times_out \<Rightarrow> (Inl TimeoutExpired, True)
      | Exits out err rc \<Rightarrow>
          (case decode_strict cd out of
             Inl e \<Rightarrow> (Inl (Other_exception e), False)
           | Inr so \<Rightarrow>
               (case decode_strict cd err of
                  Inl e \<Rightarrow> (Inl (Other_exception e), False)
                | Inr se \<Rightarrow> (Inr (translate_newlines so, translate_newlines se, rc), False))))"

text \<open>
  The environment gives the behaviour of the ssh process for each host, command and
  timeout. Both variants return what the function returns or the exception that leaves
  it, together with whether the ssh process was killed. Killing a process that has not
  finished in time is taken to succeed, and the interruption or cancellation of the caller
  itself is not a behaviour of the ssh process.
\<close>

type_synonym world = "string \<Rightarrow> string \<Rightarrow> int \<Rightarrow> ssh_process"

definition run_sync :: "codec \<Rightarrow> world \<Rightarrow> string \<Rightarrow> string \<Rightarrow> int \<Rightarrow> (py_exception + string \<times> string \<times> int) \<times> bool" where
  "run_sync cd w host command timeout =
     (case subprocess_run cd (w host command timeout) of
        (Inr (out, err, rc), killed) \<Rightarrow> (Inr (out, err, rc), killed)
      | (Inl TimeoutExpired, killed) \<Rightarrow> (Inr ([], ''SSH command timed out'', 1), killed)
      | (Inl (Other_exception e), killed) \<Rightarrow> (Inr ([], e, 1), killed))"

definition run :: "codec \<Rightarrow> world \<Rightarrow> string \<Rightarrow> string \<Rightarrow> int \<Rightarrow> (py_exception + string \<times> string \<times> int) \<times> bool" where
  "run cd w host command timeout =
     (case w host command timeout of
        Start_fails e \<Rightarrow>
          \<comment> \<open>\<open>create_subprocess_exec\<close> raises; the outer handler returns\<close>
          (Inr ([], e, 1), False)
      | Times_out \<Rightarrow>
          \<comment> \<open>\<open>wait_for\<close> raises; the inner handler kills the process and returns\<close>
          (Inr ([], ''SSH command timed out'', 1), True)
      | Exits out err rc \<Rightarrow>
          (Inr (decode_replace cd out, decode_replace cd err, or_int rc 0), False))"

text \<open>
  A codec for seven-bit output, used to evaluate the executor on concrete bytes: it agrees
  with every ASCII-compatible codec on bytes below 128; on other bytes the strict decoder
  fails (its message is abridged) and the replacing one puts a question mark.
\<close>

definition ascii_codec :: codec where
  "ascii_codec =
     \<lparr> decode_strict = (\<lambda>bs. if list_all (\<lambda>b. b < 128) bs then Inr (map (\<lambda>b. char_of (unat b)) bs)
                             else Inl ''ordinal not in range(128)''),
       decode_replace = map (\<lambda>b. if b < 128 then char_of (unat b) else CHR ''?'') \<rparr>"

section \<open>Application state and the remote side\<close>

text \<open>
  The commands and the application run their remote commands through one client. The
  remote side answers each call with a result triple; its answer may change from one call
  to the next, so it is indexed by the number of calls made before. The state records that
  number and the trace of what the application has done.
\<close>

datatype severity = Information | Warning | Error

datatype event =
    Ssh_run string int
  | Sleep nat
  | Notify string severity
  | Push_session_screen string string string string int
  | Worker_raises py_error

record app_state =
  ssh_calls :: nat
  trace :: "event list"

type_synonym remote = "nat \<Rightarrow> string \<Rightarrow> int \<Rightarrow> string \<times> string \<times> int"

definition ssh_run :: "remote \<Rightarrow> string \<Rightarrow> int \<Rightarrow> app_state \<Rightarrow> (string \<times> string \<times> int) \<times> app_state" where
  "ssh_run remote command timeout st =
     (remote (ssh_calls st) command timeout,
      st\<lparr>ssh_calls := ssh_calls st + 1, trace := trace st @ [Ssh_run command timeout]\<rparr>)"

definition notify :: "string \<Rightarrow> severity \<Rightarrow> app_state \<Rightarrow> app_state" where
  "notify msg sev st = st\<lparr>trace := trace st @ [Notify msg sev]\<rparr>"

definition sleep :: "nat \<Rightarrow> app_state \<Rightarrow> app_state" where
  "sleep secs st = st\<lparr>trace := trace st @ [Sleep secs]\<rparr>"

section \<open>SLURM commands (conv/commands.py)\<close>

text \<open>The fields of the two job classes carry the scheduler's name as a prefix.\<close>

record SLURMJob =
  slurm_job_id :: string
  slurm_name :: string
  slurm_state :: string
  slurm_node :: string
  slurm_elapsed :: string
  slurm_time_limit :: string
  slurm_time_left :: string
  slurm_reason :: string

definition squeue_command :: "string \<Rightarrow> string" where
  "squeue_command username =
     ''squeue -u '' @ username @ '' -h -o '%i|%j|%T|%N|%M|%l|%L|%R' 2>/dev/null''"

text \<open>The loop of \<open>fetch_jobs\<close> over the lines of the listing.\<close>

fun conv_jobs_loop :: "string list \<Rightarrow> SLURMJob list \<Rightarrow> SLURMJob list option" where
  "conv_jobs_loop [] jobs = Some jobs"
| "conv_jobs_loop (line # rest) jobs =
     (let parts = split (CHR ''|'') (strip line)
      in if length parts \<ge> 8 then
           do {
             p0 \<leftarrow> idx parts 0; p1 \<leftarrow> idx parts 1; p2 \<leftarrow> idx parts 2; p3 \<leftarrow> idx parts 3;
             p4 \<leftarrow> idx parts 4; p5 \<leftarrow> idx parts 5; p6 \<leftarrow> idx parts 6; p7 \<leftarrow> idx parts 7;
             conv_jobs_loop rest
               (jobs @ [\<lparr>slurm_job_id = p0, slurm_name = p1, slurm_state = p2, slurm_node = p3, slurm_elapsed = p4,
                          slurm_time_limit = p5, slurm_time_left = p6, slurm_reason = p7\<rparr>])
           }
         else if length parts \<ge> 4 then
           do {
             p0 \<leftarrow> idx parts 0; p1 \<leftarrow> idx parts 1; p2 \<leftarrow> idx parts 2;
             p3 \<leftarrow> (if length parts > 3 then idx parts 3 else Some []);
             conv_jobs_loop rest
               (jobs @ [\<lparr>slurm_job_id = p0, slurm_name = p1, slurm_state = p2, slurm_node = p3, slurm_elapsed = [],
                          slurm_time_limit = [], slurm_time_left = [], slurm_reason = []\<rparr>])
           }
         else conv_jobs_loop rest jobs)"

definition conv_fetch_jobs :: "remote \<Rightarrow> string \<Rightarrow> app_state \<Rightarrow> SLURMJob list option \<times> app_state" where
  "conv_fetch_jobs ssh username st =
     (case ssh_run ssh (squeue_command username) 30 st of
        ((stdout, _, rc), st') \<Rightarrow>
          if rc \<noteq> 0 \<or> strip stdout = [] then (Some [], st')
          else (conv_jobs_loop (splitlines (strip stdout)) [], st'))"

text \<open>
  The four submission functions end alike: the job id is the stripped standard output, and
  it must be non-empty and match \<open>^\d+$\<close>; otherwise the error is the stripped standard
  error, or a default message when that is empty.
\<close>

definition submit_result :: "string \<times> string \<times> int \<Rightarrow> string \<times> string" where
  "submit_result r =
     (case r of (stdout, stderr, rc) \<Rightarrow>
        (let job_id = strip stdout
         in if job_id = [] \<or> re_match number_pattern job_id = None
            then ([], or_str (strip stderr) ''Failed to submit job'')
            else (job_id, [])))"

definition conv_jupyter_script :: "string \<Rightarrow> int \<Rightarrow> string \<Rightarrow> int \<Rightarrow> string \<Rightarrow> string \<Rightarrow> py_error + string" where
  "conv_jupyter_script gpu_type num_gpus walltime port job_name email =
     and_then (str_int num_gpus) (\<lambda>gpus.
     and_then (str_int port) (\<lambda>port_text.
       Inr (
          ''cat > ~/._conv_jupyter.sh << 'JOBSCRIPT'\<newline>''
          @ ''#!/bin/bash\<newline>''
          @ ''#SBATCH --job-name='' @ job_name @ ''\<newline>''
          @ ''#SBATCH --nodes=1\<newline>''
          @ ''#SBATCH --gpus-per-node='' @ gpu_type @ '':'' @ gpus @ ''\<newline>''
          @ ''#SBATCH --time='' @ walltime @ ''\<newline>''
          @ ''#SBATCH --mail-type=ALL\<newline>''
          @ ''#SBATCH --mail-user='' @ email @ ''\<newline>''
          @ ''#SBATCH --output=%x-%j.out\<newline>''
          @ ''#SBATCH --error=%x-%j.err\<newline>''
          @ ''\<newline>''
          @ ''source /etc/profile.d/modules.sh\<newline>''
          @ ''module purge\<newline>''
          @ ''module load python/anaconda3\<newline>''
          @ ''eval \"$(conda shell.bash hook)\"\<newline>''
          @ ''\<newline>''
          @ ''jupyter lab --ip=0.0.0.0 --no-browser --port='' @ port_text @ ''\<newline>''
          @ ''JOBSCRIPT\<newline>''
          @ ''sbatch ~/._conv_jupyter.sh 2>&1 | grep -oP 'Submitted batch job ''
          @ [CHR 0x5C] @ ''K[0-9]+'' @ [CHR 0x27])))"

definition conv_submit_jupyter_job ::
  "remote \<Rightarrow> string \<Rightarrow> int \<Rightarrow> string \<Rightarrow> int \<Rightarrow> string \<Rightarrow> string \<Rightarrow> app_state
     \<Rightarrow> (py_error + string \<times> string) \<times> app_state" where
  "conv_submit_jupyter_job ssh gpu_type num_gpus walltime port job_name email st =
     (case conv_jupyter_script gpu_type num_gpus walltime port job_name email of
        Inl e \<Rightarrow> (Inl e, st)
      | Inr command \<Rightarrow>
          (case ssh_run ssh command 30 st of
             (r, st') \<Rightarrow> (Inr (submit_result r), st')))"

definition conv_custom_command :: "string \<Rightarrow> int \<Rightarrow> string \<Rightarrow> string \<Rightarrow> string \<Rightarrow> string \<Rightarrow> py_error + string" where
  "conv_custom_command gpu_type num_gpus walltime job_name email script_path =
     and_then (str_int num_gpus) (\<lambda>gpus.
       Inr (
          ''sbatch --job-name='' @ [CHR 0x27] @ job_name @ [CHR 0x27] @ '' --nodes=1 ''
          @ ''--gpus-per-node='' @ [CHR 0x27] @ gpu_type @ '':'' @ gpus @ [CHR 0x27]
          @ '' --time='' @ [CHR 0x27] @ walltime @ [CHR 0x27] @ '' ''
          @ ''--mail-type=ALL --mail-user='' @ email @ '' ''
          @ ''--output=%x-%j.out --error=%x-%j.err ''
          @ [CHR 0x27] @ script_path @ [CHR 0x27] @ '' 2>&1 | grep -oP 'Submitted batch job ''
          @ [CHR 0x5C] @ ''K[0-9]+'' @ [CHR 0x27]))"

definition conv_submit_custom_job ::
  "remote \<Rightarrow> string \<Rightarrow> int \<Rightarrow> string \<Rightarrow> string \<Rightarrow> string \<Rightarrow> string \<Rightarrow> app_state
     \<Rightarrow> (py_error + string \<times> string) \<times> app_state" where
  "conv_submit_custom_job ssh gpu_type num_gpus walltime job_name email script_path st =
     (case conv_custom_command gpu_type num_gpus walltime job_name email script_path of
        Inl e \<Rightarrow> (Inl e, st)
      | Inr command \<Rightarrow>
          (case ssh_run ssh command 30 st of
             (r, st') \<Rightarrow> (Inr (submit_result r), st')))"

definition conv_cancel_command :: "string \<Rightarrow> string" where
  "conv_cancel_command job_id = ''scancel '' @ job_id @ '' 2>/dev/null''"

definition conv_node_command :: "string \<Rightarrow> string" where
  "conv_node_command job_id = ''squeue -j '' @ job_id @ '' -h -o '%N' 2>/dev/null''"

definition conv_url_command :: "string \<Rightarrow> string" where
  "conv_url_command job_id =
     ''grep -o 'http://[^ ]*' ~/*-'' @ job_id @ ''.err 2>/dev/null | tail -1''"

definition conv_cancel_job :: "remote \<Rightarrow> string \<Rightarrow> app_state \<Rightarrow> string \<times> app_state" where
  "conv_cancel_job ssh job_id st =
     (case ssh_run ssh (conv_cancel_command job_id) 30 st of
        ((_, stderr, rc), st') \<Rightarrow> (if rc \<noteq> 0 then strip stderr else [], st'))"

definition conv_get_job_node :: "remote \<Rightarrow> string \<Rightarrow> app_state \<Rightarrow> string \<times> app_state" where
  "conv_get_job_node ssh job_id st =
     (case ssh_run ssh (conv_node_command job_id) 30 st of
        ((stdout, _, _), st') \<Rightarrow> (strip stdout, st'))"

definition conv_get_jupyter_url :: "remote \<Rightarrow> string \<Rightarrow> app_state \<Rightarrow> string \<times> app_state" where
  "conv_get_jupyter_url ssh job_id st =
     (case ssh_run ssh (conv_url_command job_id) 30 st of
        ((stdout, _, _), st') \<Rightarrow> (strip stdout, st'))"

section \<open>OAR commands (hpc/commands.py)\<close>

record OARJob =
  oar_job_id :: string
  oar_name :: string
  oar_state :: string
  oar_walltime :: string
  oar_start_time :: string
  oar_node :: string
  oar_cores :: string

text \<open>\<open>OARJob(job_id=i)\<close>: every other field has its default, the empty string.\<close>

definition new_OARJob :: "string \<Rightarrow> OARJob" where
  "new_OARJob i =
     \<lparr>oar_job_id = i, oar_name = [], oar_state = [], oar_walltime = [], oar_start_time = [],
      oar_node = [], oar_cores = []\<rparr>"

definition job_id_pattern :: "item list" where
  \<comment> \<open>\<open>Job_Id\s*:\s*(\d+)\<close>\<close>
  "job_id_pattern = [Lit ''Job_Id'', Star Space, Chr colon, Star Space, Grp_plus Digit]"

definition core_pattern :: "item list" where
  \<comment> \<open>\<open>core=(\d+)\<close>\<close>
  "core_pattern = [Lit ''core='', Grp_plus Digit]"

text \<open>\<open>line.split("=", 1)[1].strip()\<close>.\<close>

definition value_of :: "string \<Rightarrow> string option" where
  "value_of line = do { v \<leftarrow> idx (split1 (CHR ''='') line) 1; Some (strip v) }"

text \<open>The chain of tests that a line of a block goes through.\<close>

definition oar_field :: "string \<Rightarrow> OARJob \<Rightarrow> OARJob option" where
  "oar_field line current =
     (if contains ''name ='' line then
        do { v \<leftarrow> value_of line; Some (current\<lparr>oar_name := v\<rparr>) }
      else if contains ''state ='' line then
        do { v \<leftarrow> value_of line; Some (current\<lparr>oar_state := v\<rparr>) }
      else if contains ''walltime ='' line then
        do { v \<leftarrow> value_of line; Some (current\<lparr>oar_walltime := v\<rparr>) }
      else if contains ''startTime ='' line then
        do { v \<leftarrow> value_of line; Some (current\<lparr>oar_start_time := v\<rparr>) }
      else if contains ''assigned_hostnames ='' line then
        do { v \<leftarrow> value_of line; Some (current\<lparr>oar_node := v\<rparr>) }
      else if contains ''wanted_resources ='' line then
        (case re_search core_pattern line of
           Some (_, g, _) \<Rightarrow> do { c \<leftarrow> idx g 0; Some (current\<lparr>oar_cores := c\<rparr>) }
         | None \<Rightarrow> Some current)
      else Some current)"

text \<open>\<open>if current and current.job_id: jobs.append(current)\<close>.\<close>

definition flush :: "OARJob list \<Rightarrow> OARJob option \<Rightarrow> OARJob list" where
  "flush jobs current =
     (case current of
        None \<Rightarrow> jobs
      | Some c \<Rightarrow> if oar_job_id c \<noteq> [] then jobs @ [c] else jobs)"

fun oarstat_loop :: "string list \<Rightarrow> OARJob list \<Rightarrow> OARJob option \<Rightarrow> OARJob list option" where
  "oarstat_loop [] jobs current = Some (flush jobs current)"
| "oarstat_loop (line # rest) jobs current =
     (case re_match job_id_pattern line of
        Some g \<Rightarrow> do { i \<leftarrow> idx g 0; oarstat_loop rest (flush jobs current) (Some (new_OARJob i)) }
      | None \<Rightarrow>
          (case current of
             None \<Rightarrow> oarstat_loop rest jobs None
           | Some c \<Rightarrow> do { c' \<leftarrow> oar_field line c; oarstat_loop rest jobs (Some c') }))"

definition parse_oarstat_full :: "string \<Rightarrow> OARJob list option" where
  "parse_oarstat_full text0 = oarstat_loop (splitlines text0) [] None"

definition hpc_fetch_jobs :: "remote \<Rightarrow> string \<Rightarrow> app_state \<Rightarrow> OARJob list option \<times> app_state" where
  "hpc_fetch_jobs ssh username st =
     (case ssh_run ssh (''oarstat -u '' @ username @ '' -f 2>/dev/null'') 30 st of
        ((stdout, _, rc), st') \<Rightarrow>
          if rc \<noteq> 0 \<or> strip stdout = [] then (Some [], st')
          else (parse_oarstat_full stdout, st'))"

definition hpc_jupyter_script :: "int \<Rightarrow> string \<Rightarrow> int \<Rightarrow> string \<Rightarrow> py_error + string" where
  "hpc_jupyter_script cores walltime port email =
     and_then (str_int cores) (\<lambda>cores_text.
     and_then (str_int port) (\<lambda>port_text.
       Inr (
          ''cat > ~/._jupyter_job.sh << 'JOBSCRIPT'\<newline>''
          @ ''#!/bin/bash\<newline>''
          @ ''#OAR -l {host like 'big%'}/nodes=1/core='' @ cores_text @ '',walltime='' @ walltime @ ''\<newline>''
          @ ''#OAR --notify mail:'' @ email @ ''\<newline>''
          @ ''\<newline>''
          @ ''source /etc/profile.d/modules.sh\<newline>''
          @ ''module purge\<newline>''
          @ ''module load python/anaconda3\<newline>''
          @ ''eval \"$(conda shell.bash hook)\"\<newline>''
          @ ''\<newline>''
          @ ''jupyter lab --ip=0.0.0.0 --no-browser --port='' @ port_text @ ''\<newline>''
          @ ''JOBSCRIPT\<newline>''
          @ ''chmod +x ~/._jupyter_job.sh\<newline>''
          @ ''oarsub -S ~/._jupyter_job.sh 2>&1 | grep -oP 'OAR_JOB_ID=''
          @ [CHR 0x5C] @ ''K[0-9]+'' @ [CHR 0x27])))"

definition hpc_submit_jupyter_job ::
  "remote \<Rightarrow> int \<Rightarrow> string \<Rightarrow> int \<Rightarrow> string \<Rightarrow> app_state
     \<Rightarrow> (py_error + string \<times> string) \<times> app_state" where
  "hpc_submit_jupyter_job ssh cores walltime port email st =
     (case hpc_jupyter_script cores walltime port email of
        Inl e \<Rightarrow> (Inl e, st)
      | Inr command \<Rightarrow>
          (case ssh_run ssh command 30 st of
             (r, st') \<Rightarrow> (Inr (submit_result r), st')))"

definition hpc_custom_command :: "int \<Rightarrow> string \<Rightarrow> string \<Rightarrow> py_error + string" where
  "hpc_custom_command cores walltime script_path =
     and_then (str_int cores) (\<lambda>cores_text.
       Inr (
          ''oarsub -l /nodes=1/core='' @ cores_text @ '',walltime='' @ walltime @ '' ''
          @ ''-p \"host like 'big%'\" -S '' @ [CHR 0x27] @ script_path @ [CHR 0x27] @ '' 2>&1 ''
          @ ''| grep -oP 'OAR_JOB_ID='' @ [CHR 0x5C] @ ''K[0-9]+'' @ [CHR 0x27]))"

definition hpc_submit_custom_job ::
  "remote \<Rightarrow> int \<Rightarrow> string \<Rightarrow> string \<Rightarrow> app_state
     \<Rightarrow> (py_error + string \<times> string) \<times> app_state" where
  "hpc_submit_custom_job ssh cores walltime script_path st =
     (case hpc_custom_command cores walltime script_path of
        Inl e \<Rightarrow> (Inl e, st)
      | Inr command \<Rightarrow>
          (case ssh_run ssh command 30 st of
             (r, st') \<Rightarrow> (Inr (submit_result r), st')))"

definition hpc_cancel_command :: "string \<Rightarrow> string" where
  "hpc_cancel_command job_id = ''oardel '' @ job_id"

definition hpc_node_command :: "string \<Rightarrow> string" where
  "hpc_node_command job_id =
     ''oarstat -f -j '' @ job_id
     @ '' 2>/dev/null | grep 'assigned_hostnames' | awk '{print $3}'' @ [CHR 0x27]"

definition hpc_url_command :: "string \<Rightarrow> string" where
  "hpc_url_command job_id =
     ''grep -o 'http://[^ ]*' ~/OAR.'' @ job_id @ ''.stderr 2>/dev/null | tail -1''"

definition hpc_cancel_job :: "remote \<Rightarrow> string \<Rightarrow> app_state \<Rightarrow> string \<times> app_state" where
  "hpc_cancel_job ssh job_id st =
     (case ssh_run ssh (hpc_cancel_command job_id) 30 st of
        ((_, stderr, rc), st') \<Rightarrow> (if rc \<noteq> 0 then strip stderr else [], st'))"

definition hpc_get_job_node :: "remote \<Rightarrow> string \<Rightarrow> app_state \<Rightarrow> string \<times> app_state" where
  "hpc_get_job_node ssh job_id st =
     (case ssh_run ssh (hpc_node_command job_id) 30 st of
        ((stdout, _, _), st') \<Rightarrow> (strip stdout, st'))"

definition hpc_get_jupyter_url :: "remote \<Rightarrow> string \<Rightarrow> app_state \<Rightarrow> string \<times> app_state" where
  "hpc_get_jupyter_url ssh job_id st =
     (case ssh_run ssh (hpc_url_command job_id) 30 st of
        ((stdout, _, _), st') \<Rightarrow> (strip stdout, st'))"

section \<open>Endpoint resolution (hpc/app.py and conv/app.py)\<close>

definition port_pattern :: "item list" where
  \<comment> \<open>\<open>:(\d+)(?=/)\<close>\<close>
  "port_pattern = [Chr colon, Grp_plus Digit, Ahead (Among [] ''/'')]"

definition url_host_pattern :: "item list" where
  \<comment> \<open>\<open>http://[^:]*:\<close>\<close>
  "url_host_pattern = [Lit ''http://'', Star (Except '':''), Chr colon]"

text \<open>\<open>re.sub(pattern, repl, s, count=1)\<close> with a replacement that has no group reference.\<close>

definition re_sub1 :: "item list \<Rightarrow> string \<Rightarrow> string \<Rightarrow> string" where
  "re_sub1 p repl s =
     (case re_search p s of
        None \<Rightarrow> s
      | Some (i, g, j) \<Rightarrow> take i s @ repl @ drop j s)"

definition push_screen :: "event \<Rightarrow> app_state \<Rightarrow> app_state" where
  "push_screen scr st = st\<lparr>trace := trace st @ [scr]\<rparr>"

text \<open>An exception that nothing catches ends the worker; the trace keeps it as its last event.\<close>

definition raise :: "py_error \<Rightarrow> app_state \<Rightarrow> app_state" where
  "raise e st = st\<lparr>trace := trace st @ [Worker_raises e]\<rparr>"

text \<open>
  The loop \<open>for _ in range(30)\<close> of \<open>_connect_to\<close>, with the number of rounds left and the
  variable \<open>url\<close>: ask for the URL, leave the loop when there is one, else sleep two
  seconds.
\<close>

type_synonym query = "remote \<Rightarrow> string \<Rightarrow> app_state \<Rightarrow> string \<times> app_state"

fun url_loop :: "query \<Rightarrow> remote \<Rightarrow> string \<Rightarrow> nat \<Rightarrow> string \<Rightarrow> app_state \<Rightarrow> string \<times> app_state" where
  "url_loop get_jupyter_url ssh job_id 0 url st = (url, st)"
| "url_loop get_jupyter_url ssh job_id (Suc n) url st =
     (case get_jupyter_url ssh job_id st of
        (url', st') \<Rightarrow>
          if url' \<noteq> [] then (url', st')
          else url_loop get_jupyter_url ssh job_id n url' (sleep 2 st'))"

text \<open>
  \<open>_connect_to\<close> is the same text in both applications, over the commands of its own
  scheduler and with its own default port.
\<close>

definition connect_to :: "query \<Rightarrow> query \<Rightarrow> int \<Rightarrow> remote \<Rightarrow> string \<Rightarrow> app_state \<Rightarrow> app_state" where
  "connect_to get_job_node get_jupyter_url default_port ssh job_id st =
     (case get_job_node ssh job_id st of
        (node, st1) \<Rightarrow>
          if node = [] \<or> \<not> is_name node
          then notify (''Could not find node for job '' @ job_id) Error st1
          else
            (case url_loop get_jupyter_url ssh job_id 30 []
                    (notify (''Waiting for Jupyter on '' @ node @ ''...'') Information st1) of
               (url, st3) \<Rightarrow>
                 if url = [] then notify ''Jupyter didn't start. Check job logs.'' Error st3
                 else
                   (case (case re_search port_pattern url of
                            Some (_, g, _) \<Rightarrow> py_int (g ! 0)
                          | None \<Rightarrow> Inr default_port) of
                      Inl e \<Rightarrow> raise e st3
                    | Inr port \<Rightarrow>
                        (let local_url = re_sub1 url_host_pattern ''http://localhost:'' url
                         in push_screen (Push_session_screen job_id node url local_url port) st3))))"

definition hpc_connect_to :: "remote \<Rightarrow> string \<Rightarrow> app_state \<Rightarrow> app_state" where
  "hpc_connect_to = connect_to hpc_get_job_node hpc_get_jupyter_url 8888"

definition conv_connect_to :: "remote \<Rightarrow> string \<Rightarrow> app_state \<Rightarrow> app_state" where
  "conv_connect_to = connect_to conv_get_job_node conv_get_jupyter_url 9888"

text \<open>What a trace tells: the commands run, the seconds slept, the messages shown.\<close>

fun commands_of :: "event list \<Rightarrow> string list" where
  "commands_of [] = []"
| "commands_of (Ssh_run c t # es) = c # commands_of es"
| "commands_of (e # es) = commands_of es"

fun sleeps_of :: "event list \<Rightarrow> nat list" where
  "sleeps_of [] = []"
| "sleeps_of (Sleep n # es) = n # sleeps_of es"
| "sleeps_of (e # es) = sleeps_of es"

fun notes_of :: "event list \<Rightarrow> (string \<times> severity) list" where
  "notes_of [] = []"
| "notes_of (Notify m s # es) = (m, s) # notes_of es"
| "notes_of (e # es) = notes_of es"

section \<open>Tunnel handle (SessionScreen)\<close>

text \<open>
  The tunnel is a child process held as a \<open>Popen\<close> object, or nothing when it could not be
  started. Whether the child has exited is the operating system's knowledge: \<open>returncode\<close>
  is its exit status once it has exited, which \<open>poll\<close> reads. \<open>terminate\<close> sends SIGTERM
  unless the child is known to have exited, and never raises. The child exits when it does:
  that is a step of the environment, \<open>child_exits\<close>.
\<close>

record popen =
  returncode :: "int option"
  sigterms :: nat

definition poll :: "popen \<Rightarrow> int option" where
  "poll p = returncode p"

definition terminate :: "popen \<Rightarrow> popen" where
  "terminate p = (if returncode p = None then p\<lparr>sigterms := sigterms p + 1\<rparr> else p)"

definition child_exits :: "int \<Rightarrow> popen \<Rightarrow> popen" where
  "child_exits rc p = (if returncode p = None then p\<lparr>returncode := Some rc\<rparr> else p)"

text \<open>
  \<open>_cleanup\<close> of the HPC session screen; \<open>action_disconnect\<close> of the other one has the same
  two lines inline.
\<close>

definition cleanup :: "popen option \<Rightarrow> popen option" where
  "cleanup tunnel =
     (case tunnel of
        None \<Rightarrow> None
      | Some p \<Rightarrow> if poll p = None then Some (terminate p) else Some p)"

section \<open>Notions of the specification\<close>

text \<open>A numeric job id: a non-empty run of decimal digits.\<close>

definition numeric :: "string \<Rightarrow> bool" where
  "numeric s = (s \<noteq> [] \<and> list_all isdigit s)"

text \<open>
  What the specification says of a submission, given the result triple of the remote
  command: the id on standard output, or else the captured standard error, or else a
  default message.
\<close>

definition submit_outcome :: "string \<times> string \<times> int \<Rightarrow> string \<times> string" where
  "submit_outcome r =
     (case r of (out, err, rc) \<Rightarrow>
        if numeric (strip out) then (strip out, [])
        else ([], if strip err = [] then ''Failed to submit job'' else strip err))"

text \<open>
  The block-structured dump: a header line is one that the header pattern matches, and it
  carries the job id captured there. Each header line opens a block, whose body is the run
  of lines after it up to the next header line.
\<close>

definition is_header :: "string \<Rightarrow> bool" where
  "is_header line = (re_match job_id_pattern line \<noteq> None)"

definition header_id :: "string \<Rightarrow> string" where
  "header_id line = (case re_match job_id_pattern line of Some g \<Rightarrow> g ! 0 | None \<Rightarrow> [])"

fun blocks :: "string list \<Rightarrow> (string \<times> string list) list" where
  "blocks [] = []"
| "blocks (l # ls) =
     (if is_header l then (l, takeWhile (\<lambda>x. \<not> is_header x) ls) # blocks ls else blocks ls)"

text \<open>The record of a block: a fresh record with the header's id, then the body's lines in order.\<close>

definition apply_line :: "OARJob \<Rightarrow> string \<Rightarrow> OARJob" where
  "apply_line job line = (case oar_field line job of Some job' \<Rightarrow> job' | None \<Rightarrow> job)"

definition job_of_block :: "string \<times> string list \<Rightarrow> OARJob" where
  "job_of_block b = foldl apply_line (new_OARJob (header_id (fst b))) (snd b)"

text \<open>
  A duration token is a pair of a number and a unit, and it is worth the number times the
  weight of the unit: a day has 1440 minutes, an hour 60.
\<close>

definition weight :: "string \<Rightarrow> int" where
  "weight u = (if u = ''d'' then 1440 else if u = ''h'' then 60 else 1)"

definition token_minutes :: "string list \<Rightarrow> int" where
  "token_minutes tok = digits_value (tok ! 0) * weight (tok ! 1)"

definition is_token :: "string list \<Rightarrow> bool" where
  "is_token tok = (length tok = 2 \<and> numeric (tok ! 0) \<and> tok ! 1 \<in> {''d'', ''h'', ''m''})"

text \<open>
  An integer that the interpreter converts to text without raising: one of at most 4300
  decimal digits.
\<close>

definition convertible :: "int \<Rightarrow> bool" where
  "convertible n = (length (digits (nat \<bar>n\<bar>)) \<le> max_str_digits)"

text \<open>
  A text with duration tokens among other text, read from left to right as segments: a
  stretch without digits, then the digits of a token, the white space between number and
  unit, and the unit letter. After the last segment comes a rest without digits.
\<close>

type_synonym segment = "string \<times> string \<times> string \<times> char"

definition is_segment :: "segment \<Rightarrow> bool" where
  "is_segment sg =
     (case sg of (other, ds, ws, u) \<Rightarrow>
        list_all (\<lambda>c. \<not> isdigit c) other \<and> numeric ds \<and> list_all isspace ws
        \<and> u \<in> set ''dhm'')"

definition segment_text :: "segment \<Rightarrow> string" where
  "segment_text sg = (case sg of (other, ds, ws, u) \<Rightarrow> other @ ds @ ws @ [u])"

definition segment_token :: "segment \<Rightarrow> string list" where
  "segment_token sg = (case sg of (other, ds, ws, u) \<Rightarrow> [ds, [u]])"

text \<open>
  The tokens of a text, read from left to right without the pattern: at a digit, the whole
  run of digits is the number; if white space and then a unit letter follow, that is a
  token and the reading goes on after the letter; if something else follows, the run of
  digits holds no token and the reading goes on after it. Any other character is passed
  over.
\<close>

function tokens_of :: "string \<Rightarrow> string list list" where
  "tokens_of s =
     (case s of
        [] \<Rightarrow> []
      | c # cs \<Rightarrow>
          if isdigit c
          then (case dropWhile isspace (dropWhile isdigit s) of
                  [] \<Rightarrow> []
                | u # rest \<Rightarrow>
                    if u \<in> set ''dhm'' then [takeWhile isdigit s, [u]] # tokens_of rest
                    else tokens_of (dropWhile isdigit s))
          else tokens_of cs)"
  by pat_completeness auto
termination
proof (relation "measure length", goal_cases)
  case 1
  show ?case by simp
next
  case (2 s c cs u rest)
  have "length (u # rest) \<le> length (dropWhile isdigit s)"
    unfolding 2(3) [symmetric] by (rule length_dropWhile_le)
  also have "\<dots> \<le> length s"
    by (rule length_dropWhile_le)
  finally show ?case
    by simp
next
  case (3 s c cs u rest)
  then have "dropWhile isdigit s = dropWhile isdigit cs"
    by simp
  moreover have "length (dropWhile isdigit cs) \<le> length cs"
    by (rule length_dropWhile_le)
  ultimately show ?case
    using 3(1) by simp
next
  case (4 s c cs)
  then show ?case by simp
qed

declare tokens_of.simps [simp del]

chapter \<open>Properties\<close>

section \<open>Worked examples of the duration codec\<close>

text \<open>
  C1, as the code has it: \<open>parse_to_minutes("90")\<close> is 5400; \<open>parse_to_minutes("1d 6h 30m")\<close>
  is 1830, one day, six hours and thirty minutes (not 1890); the empty text and \<open>"abc"\<close> have
  no value; \<open>minutes_to_slurm(1500)\<close> is \<open>"1-01:00:00"\<close> and \<open>minutes_to_hms(90)\<close> is
  \<open>"1:30:0"\<close>. Each of the six calls returns; none raises.
\<close>

theorem duration_examples:
  "parse_to_minutes ''90'' = Inr (Some 5400) \<and>
   parse_to_minutes ''1d 6h 30m'' = Inr (Some 1830) \<and>
   parse_to_minutes '''' = Inr None \<and>
   parse_to_minutes ''abc'' = Inr None \<and>
   minutes_to_slurm 1500 = Inr ''1-01:00:00'' \<and>
   minutes_to_hms 90 = Inr ''1:30:0''"
  by code_simp

text \<open>The value 1890 that C1 gives for \<open>"1d 6h 30m"\<close> is not what the parser returns.\<close>

theorem composite_example_is_not_1890:
  "parse_to_minutes ''1d 6h 30m'' \<noteq> Inr (Some 1890)"
  by code_simp

section \<open>The remote executor\<close>

text \<open>
  C3: whatever the ssh process does, both variants return a result triple and raise nothing.
  When the process does not finish in time the triple is the empty output, the message
  \<open>SSH command timed out\<close> and status 1, and the process has been killed; when it cannot be
  started the triple is the empty output, the text of the exception and status 1.
\<close>

theorem executor_returns_data:
  "(w host command timeout = Times_out \<longrightarrow>
      run_sync cd w host command timeout = (Inr ([], ''SSH command timed out'', 1), True) \<and>
      run cd w host command timeout = (Inr ([], ''SSH command timed out'', 1), True)) \<and>
   (w host command timeout = Start_fails e \<longrightarrow>
      run_sync cd w host command timeout = (Inr ([], e, 1), False) \<and>
      run cd w host command timeout = (Inr ([], e, 1), False)) \<and>
   (\<exists>r k. run_sync cd w host command timeout = (Inr r, k)) \<and>
   (\<exists>r k. run cd w host command timeout = (Inr r, k))"
  by (cases "w host command timeout")
     (auto simp: run_sync_def run_def subprocess_run_def split: sum.splits)

theorem executor_returns_data_witness:
  "run_sync ascii_codec (\<lambda>h c t. Times_out) ''hpc'' ''ls'' 30
     = (Inr ([], ''SSH command timed out'', 1), True) \<and>
   run ascii_codec (\<lambda>h c t. Times_out) ''hpc'' ''ls'' 30
     = (Inr ([], ''SSH command timed out'', 1), True) \<and>
   run_sync ascii_codec (\<lambda>h c t. Start_fails ''No such file'') ''hpc'' ''ls'' 30
     = (Inr ([], ''No such file'', 1), False) \<and>
   run ascii_codec (\<lambda>h c t. Start_fails ''No such file'') ''hpc'' ''ls'' 30
     = (Inr ([], ''No such file'', 1), False)"
  using executor_returns_data [where w = "\<lambda>h c t. Times_out" and host = "''hpc''"
          and command = "''ls''" and timeout = 30 and cd = ascii_codec]
        executor_returns_data [where w = "\<lambda>h c t. Start_fails ''No such file''"
          and host = "''hpc''" and command = "''ls''" and timeout = 30
          and e = "''No such file''" and cd = ascii_codec]
  by simp

text \<open>
  C4 at two outputs of the ssh process, each with exit status 0. On the single byte FF the
  blocking variant reports a decoding error with status 1 where the other variant returns
  the text with the byte replaced and status 0; on \<open>a\r\nb\<close> the blocking variant returns
  \<open>a\nb\<close> where the other returns the text unchanged.
\<close>

theorem run_sync_differs_from_run:
  "run_sync ascii_codec (\<lambda>h c t. Exits [0xFF] [] 0) ''hpc'' ''ls'' 30
     = (Inr ([], ''ordinal not in range(128)'', 1), False) \<and>
   run ascii_codec (\<lambda>h c t. Exits [0xFF] [] 0) ''hpc'' ''ls'' 30
     = (Inr (''?'', [], 0), False) \<and>
   run_sync ascii_codec (\<lambda>h c t. Exits [0x61, 0x0D, 0x0A, 0x62] [] 0) ''hpc'' ''ls'' 30
     = (Inr ([CHR ''a'', CHR 0x0A, CHR ''b''], [], 0), False) \<and>
   run ascii_codec (\<lambda>h c t. Exits [0x61, 0x0D, 0x0A, 0x62] [] 0) ''hpc'' ''ls'' 30
     = (Inr ([CHR ''a'', CHR 0x0D, CHR 0x0A, CHR ''b''], [], 0), False)"
  by code_simp

section \<open>Closing the tunnel\<close>

text \<open>
  Two closes in a row, the child not yet gone at the second one: it is signalled twice.
\<close>

theorem close_twice_signals_twice:
  "cleanup (cleanup (Some \<lparr>returncode = None, sigterms = 0\<rparr>))
     = Some \<lparr>returncode = None, sigterms = 2\<rparr>"
  by (simp add: cleanup_def poll_def terminate_def)

text \<open>
  C9, as the code has it: closing raises nothing; closing when there is no tunnel, or when
  the child has exited, changes nothing and sends no signal; closing while the child runs
  sends exactly one signal; and once the child has exited after a close, a further close
  changes nothing, so that the child has been signalled once.
\<close>

theorem cleanup_idempotent_once_exited:
  "cleanup None = None \<and>
   (returncode p \<noteq> None \<longrightarrow> cleanup (Some p) = Some p) \<and>
   (returncode p = None \<longrightarrow>
      cleanup (Some p) = Some (p\<lparr>sigterms := sigterms p + 1\<rparr>)) \<and>
   cleanup (map_option (child_exits rc) (cleanup t)) = map_option (child_exits rc) (cleanup t)"
  by (cases t) (auto simp: cleanup_def poll_def terminate_def child_exits_def)

theorem cleanup_idempotent_once_exited_witness:
  "cleanup (Some \<lparr>returncode = Some 0, sigterms = 1\<rparr>)
     = Some \<lparr>returncode = Some 0, sigterms = 1\<rparr> \<and>
   cleanup (Some \<lparr>returncode = None, sigterms = 0\<rparr>)
     = Some \<lparr>returncode = None, sigterms = 1\<rparr> \<and>
   cleanup (map_option (child_exits 0) (cleanup (Some \<lparr>returncode = None, sigterms = 0\<rparr>)))
     = Some \<lparr>returncode = Some 0, sigterms = 1\<rparr>"
  using cleanup_idempotent_once_exited
          [of "\<lparr>returncode = Some 0, sigterms = 1\<rparr>" 0 "Some \<lparr>returncode = None, sigterms = 0\<rparr>"]
        cleanup_idempotent_once_exited [of "\<lparr>returncode = None, sigterms = 0\<rparr>" 0 None]
  by (simp add: cleanup_def poll_def terminate_def child_exits_def)

section \<open>Lemmas on matching and stripping\<close>

subsection \<open>Greedy repetition\<close>

lemma greedy_first:
  assumes "lo \<le> hi" and "f hi = Some r"
  shows "greedy f lo hi = Some r"
  using assms by (cases hi) auto

lemma greedy_SomeD:
  assumes "greedy f lo hi = Some r"
  shows "\<exists>k. lo \<le> k \<and> k \<le> hi \<and> f k = Some r"
  using assms
proof (induction hi)
  case 0
  then show ?case by (auto split: if_splits)
next
  case (Suc n)
  show ?case
  proof (cases "f (Suc n)")
    case None
    with Suc.prems have "greedy f lo n = Some r"
      by (auto split: if_splits)
    with Suc.IH obtain k where "lo \<le> k" "k \<le> n" "f k = Some r"
      by blast
    then show ?thesis
      by (intro exI [of _ k]) simp
  next
    case (Some a)
    with Suc.prems have "lo \<le> Suc n" and "a = r"
      by (auto split: if_splits)
    with Some show ?thesis
      by (intro exI [of _ "Suc n"]) simp
  qed
qed

lemma greedy_None:
  assumes "\<And>k. lo \<le> k \<Longrightarrow> k \<le> hi \<Longrightarrow> f k = None"
  shows "greedy f lo hi = None"
  using assms by (induction hi) auto

subsection \<open>Stripping\<close>

lemma rstrip_last:
  assumes "rstrip s \<noteq> []"
  shows "\<not> isspace (last (rstrip s))"
proof -
  from assms have ne: "dropWhile isspace (rev s) \<noteq> []"
    by (simp add: rstrip_def)
  then have "\<not> isspace (hd (dropWhile isspace (rev s)))"
    by (rule hd_dropWhile)
  with ne show ?thesis
    by (simp add: rstrip_def last_rev)
qed

lemma strip_last:
  assumes "strip s \<noteq> []"
  shows "\<not> isspace (last (strip s))"
  using assms rstrip_last [of "lstrip s"] by (simp add: strip_def)

lemma isspace_newline: "isspace (CHR 0x0A)"
  by (simp add: isspace_def)

subsection \<open>The pattern of a number\<close>

lemma takeWhile_all_length:
  "length (takeWhile P s) = length s \<longleftrightarrow> list_all P s"
  by (induction s) auto

lemma has_Digit: "has Digit = isdigit"
  by (rule ext) simp

lemma has_Space: "has Space = isspace"
  by (rule ext) simp

lemma number_pattern_unfold:
  "re_match number_pattern s =
     map_option fst
       (greedy (\<lambda>k. if length s \<le> k \<or> drop k s = [CHR 0x0A] then Some ([], k) else None) 1
          (length (takeWhile isdigit s)))"
  by (simp add: re_match_def number_pattern_def has_Digit cong: if_cong)

lemma number_pattern_digits:
  assumes "s \<noteq> []" and "list_all isdigit s"
  shows "re_match number_pattern s \<noteq> None"
proof -
  let ?f = "\<lambda>k. if length s \<le> k \<or> drop k s = [CHR 0x0A] then Some ([] :: string list, k) else None"
  from assms(2) have tw: "takeWhile isdigit s = s"
    by (simp add: list_all_iff)
  from assms(1) have "1 \<le> length s"
    by (cases s) auto
  then have "greedy ?f 1 (length s) = Some ([], length s)"
    by (rule greedy_first) simp
  then show ?thesis
    by (simp add: number_pattern_unfold tw)
qed

lemma number_pattern_only_digits:
  assumes "re_match number_pattern s \<noteq> None" and "s = [] \<or> \<not> isspace (last s)"
  shows "s \<noteq> [] \<and> list_all isdigit s"
proof -
  let ?n = "length (takeWhile isdigit s)"
  let ?f = "\<lambda>k. if length s \<le> k \<or> drop k s = [CHR 0x0A] then Some ([] :: string list, k) else None"
  from assms(1) obtain r where "greedy ?f 1 ?n = Some r"
    by (auto simp: number_pattern_unfold)
  then obtain k where k: "1 \<le> k" "k \<le> ?n" and m: "?f k = Some r"
    using greedy_SomeD [of ?f 1 ?n r] by blast
  have "?n \<le> length s"
    by (rule length_takeWhile_le)
  with k have ne: "s \<noteq> []"
    by auto
  from m have "length s \<le> k \<or> drop k s = [CHR 0x0A]"
    by (auto split: if_splits)
  then show ?thesis
  proof
    assume "length s \<le> k"
    with k \<open>?n \<le> length s\<close> have "?n = length s"
      by simp
    then have "list_all isdigit s"
      by (simp add: takeWhile_all_length)
    with ne show ?thesis ..
  next
    assume d: "drop k s = [CHR 0x0A]"
    then have "last s = last (drop k s)"
      by (metis append_take_drop_id last_appendR list.distinct(1))
    with d have "isspace (last s)"
      by (simp add: isspace_newline)
    with assms(2) ne show ?thesis
      by simp
  qed
qed

lemma number_pattern_strip:
  "(re_match number_pattern (strip t) \<noteq> None) = numeric (strip t)"
  using number_pattern_digits [of "strip t"] number_pattern_only_digits [of "strip t"]
    strip_last [of t]
  by (auto simp: numeric_def)

section \<open>Decimal digits and the limit of the conversions\<close>

subsection \<open>Decimal digits\<close>

lemma of_char_digit_char:
  assumes "d < 10"
  shows "of_char (digit_char d) = 48 + d"
  using assms by (simp add: digit_char_def)

lemma isdigit_digit_char:
  assumes "d < 10"
  shows "isdigit (digit_char d)"
  using assms by (simp add: isdigit_def of_char_digit_char)

lemma digit_val_digit_char:
  assumes "d < 10"
  shows "digit_val (digit_char d) = int d"
  using assms by (simp add: digit_val_def of_char_digit_char)

lemma digits_all: "list_all isdigit (digits n)"
proof (induction n rule: digits.induct)
  case (1 n)
  show ?case
  proof (cases "n < 10")
    case True
    then show ?thesis
      by (simp add: digits.simps [of n] isdigit_digit_char)
  next
    case False
    with "1.IH" show ?thesis
      by (simp add: digits.simps [of n] isdigit_digit_char)
  qed
qed

lemma digits_nonempty: "digits n \<noteq> []"
  by (simp add: digits.simps [of n])

lemma digits_numeric: "numeric (digits n)"
  by (simp add: numeric_def digits_all digits_nonempty)

lemma digits_value_snoc:
  "digits_value (s @ [c]) = 10 * digits_value s + digit_val c"
  by (simp add: digits_value_def)

lemma digits_value_digits: "digits_value (digits n) = int n"
proof (induction n rule: digits.induct)
  case (1 n)
  show ?case
  proof (cases "n < 10")
    case True
    then show ?thesis
      by (simp add: digits.simps [of n] digits_value_def digit_val_digit_char)
  next
    case False
    then have "digits_value (digits n)
        = 10 * digits_value (digits (n div 10)) + digit_val (digit_char (n mod 10))"
      by (simp add: digits.simps [of n] digits_value_snoc)
    also have "\<dots> = 10 * int (n div 10) + int (n mod 10)"
      using "1.IH" False by (simp add: digit_val_digit_char)
    also have "\<dots> = int n"
      by presburger
    finally show ?thesis .
  qed
qed

lemma digits_value_zeros: "digits_value (replicate k (CHR ''0'') @ s) = digits_value s"
proof (induction k)
  case 0
  show ?case by simp
next
  case (Suc k)
  have "digits_value (CHR ''0'' # t) = digits_value t" for t
    by (simp add: digits_value_def digit_val_def)
  with Suc show ?case
    by simp
qed

lemma isdigit_zero: "isdigit (CHR ''0'')"
  by (simp add: isdigit_def)

lemma digits_value_bounds:
  assumes "list_all isdigit s"
  shows "0 \<le> digits_value s \<and> digits_value s < 10 ^ length s"
  using assms
proof (induction s rule: rev_induct)
  case Nil
  show ?case by (simp add: digits_value_def)
next
  case (snoc c s)
  then have v: "0 \<le> digits_value s" "digits_value s < 10 ^ length s"
    and d: "0 \<le> digit_val c" "digit_val c \<le> 9"
    by (simp_all add: isdigit_def digit_val_def)
  from v(2) have "digits_value s + 1 \<le> 10 ^ length s"
    by simp
  then have "10 * (digits_value s + 1) \<le> 10 * 10 ^ length s"
    by (rule mult_left_mono) simp
  with d v(1) show ?case
    by (simp add: digits_value_snoc)
qed

lemma digits_value_nonneg:
  assumes "list_all isdigit s"
  shows "0 \<le> digits_value s"
  using digits_value_bounds [OF assms] by simp

subsection \<open>How many digits a number has\<close>

lemma digits_length_le:
  assumes "n < 10 ^ k" and "0 < k"
  shows "length (digits n) \<le> k"
  using assms
proof (induction n arbitrary: k rule: digits.induct)
  case (1 n)
  show ?case
  proof (cases "n < 10")
    case True
    with "1.prems" show ?thesis
      by (simp add: digits.simps [of n])
  next
    case False
    from "1.prems" obtain j where k: "k = Suc j"
      by (cases k) auto
    with False "1.prems" have "0 < j"
      by (cases j) auto
    moreover from "1.prems" k have "n div 10 < 10 ^ j"
      by (simp add: less_mult_imp_div_less mult.commute)
    ultimately have "length (digits (n div 10)) \<le> j"
      using "1.IH" False by simp
    with False k show ?thesis
      by (simp add: digits.simps [of n])
  qed
qed

lemma digits_length_gt:
  assumes "10 ^ k \<le> n"
  shows "k < length (digits n)"
  using assms
proof (induction n arbitrary: k rule: digits.induct)
  case (1 n)
  show ?case
  proof (cases k)
    case 0
    with digits_nonempty [of n] show ?thesis
      by (cases "digits n") auto
  next
    case (Suc j)
    from "1.prems" Suc have n: "10 * 10 ^ j \<le> n"
      by simp
    have "(1::nat) \<le> 10 ^ j"
      by simp
    with n have big: "\<not> n < 10"
      by linarith
    note n
    then have "10 ^ j \<le> n div 10"
      by simp
    with "1.IH" big have "j < length (digits (n div 10))"
      by simp
    with big Suc show ?thesis
      by (simp add: digits.simps [of n])
  qed
qed

lemma digits_small:
  assumes "n < 100"
  shows "length (digits n) \<le> 2"
  using digits_length_le [of n 2] assms by simp

subsection \<open>The conversions within the limit and beyond it\<close>

lemma and_then_simps [simp]:
  "and_then (Inl e) f = Inl e"
  "and_then (Inr x) f = f x"
  by (simp_all add: and_then_def)

lemma max_str_digits_ge: "2 \<le> max_str_digits"
  by (simp add: max_str_digits_def)

lemma py_int_short:
  assumes "length s \<le> max_str_digits"
  shows "py_int s = Inr (digits_value s)"
  using assms by (simp add: py_int_def)

lemma py_int_long:
  assumes "max_str_digits < length s"
  shows "py_int s = Inl ValueError"
  using assms by (simp add: py_int_def)

lemma str_int_nonneg:
  assumes "0 \<le> n" and "convertible n"
  shows "str_int n = Inr (digits (nat n))"
  using assms by (simp add: str_int_def convertible_def)

lemma str_int_long:
  assumes "\<not> convertible n"
  shows "str_int n = Inl ValueError"
  using assms by (simp add: str_int_def convertible_def)

lemma str_int_convertible:
  assumes "convertible n"
  shows "\<exists>t. str_int n = Inr t"
  using assms by (simp add: str_int_def convertible_def)

lemma convertible_small:
  assumes "0 \<le> n" and "n < 100"
  shows "convertible n"
proof -
  from assms have "nat \<bar>n\<bar> < 100"
    by simp
  then have "length (digits (nat \<bar>n\<bar>)) \<le> 2"
    by (rule digits_small)
  with max_str_digits_ge show ?thesis
    by (simp add: convertible_def)
qed

lemma not_convertible_power:
  assumes "10 ^ max_str_digits \<le> n"
  shows "\<not> convertible n"
proof -
  from assms have "(10::nat) ^ max_str_digits \<le> nat \<bar>n\<bar>"
    by (simp add: le_nat_iff)
  then have "max_str_digits < length (digits (nat \<bar>n\<bar>))"
    by (rule digits_length_gt)
  then show ?thesis
    by (simp add: convertible_def)
qed

text \<open>What \<open>int\<close> returns on a run of digits, \<open>str\<close> converts back.\<close>

lemma py_int_convertible:
  assumes "list_all isdigit s" and "s \<noteq> []" and "py_int s = Inr n"
  shows "0 \<le> n \<and> convertible n"
proof -
  from assms(3) have short: "length s \<le> max_str_digits" and n: "n = digits_value s"
    by (auto simp: py_int_def split: if_splits)
  from digits_value_bounds [OF assms(1)] n have b: "0 \<le> n" "n < 10 ^ length s"
    by simp_all
  then have "nat \<bar>n\<bar> < 10 ^ length s"
    by (simp add: nat_less_iff)
  moreover from assms(2) have "0 < length s"
    by simp
  ultimately have "length (digits (nat \<bar>n\<bar>)) \<le> length s"
    by (rule digits_length_le)
  with short b(1) show ?thesis
    by (simp add: convertible_def)
qed

lemma fmt_02d_small:
  assumes "0 \<le> n" and "n < 100"
  shows "\<exists>t. fmt_02d n = Inr t \<and> numeric t \<and> length t = 2 \<and> digits_value t = n"
proof -
  from assms have len: "length (digits (nat n)) \<le> 2"
    by (intro digits_small) simp
  with max_str_digits_ge assms(1) have
    "fmt_02d n = Inr (replicate (2 - length (digits (nat n))) CHR ''0'' @ digits (nat n))"
    by (simp add: fmt_02d_def)
  moreover have "numeric (replicate (2 - length (digits (nat n))) CHR ''0'' @ digits (nat n))"
    using digits_all [of "nat n"] digits_nonempty [of "nat n"]
    by (auto simp: numeric_def isdigit_zero list_all_iff)
  moreover have "length (replicate (2 - length (digits (nat n))) CHR ''0'' @ digits (nat n)) = 2"
    using len by simp
  moreover have
    "digits_value (replicate (2 - length (digits (nat n))) CHR ''0'' @ digits (nat n)) = n"
    using assms(1) by (simp add: digits_value_zeros digits_value_digits)
  ultimately show ?thesis
    by blast
qed

section \<open>Submission\<close>

lemma submit_result_outcome: "submit_result r = submit_outcome r"
proof (cases r)
  case (fields out err rc)
  have "numeric (strip out) \<Longrightarrow> strip out \<noteq> []"
    by (simp add: numeric_def)
  then show ?thesis
    using number_pattern_strip [of out]
    by (auto simp: fields submit_result_def submit_outcome_def or_str_def Let_def)
qed

text \<open>
  A submission builds the text of its command and then runs it. Building the text formats
  the integer parameters, which the interpreter does for every integer of at most 4300
  digits.
\<close>

lemma scripts_built:
  "convertible cores \<and> convertible port
     \<Longrightarrow> \<exists>c. hpc_jupyter_script cores walltime port email = Inr c"
  "convertible cores \<Longrightarrow> \<exists>c. hpc_custom_command cores walltime script_path = Inr c"
  "convertible num_gpus \<and> convertible port
     \<Longrightarrow> \<exists>c. conv_jupyter_script gpu_type num_gpus walltime port job_name email = Inr c"
  "convertible num_gpus
     \<Longrightarrow> \<exists>c. conv_custom_command gpu_type num_gpus walltime job_name email script_path = Inr c"
  using str_int_convertible [of cores] str_int_convertible [of port]
    str_int_convertible [of num_gpus]
  by (auto simp: hpc_jupyter_script_def hpc_custom_command_def conv_jupyter_script_def
      conv_custom_command_def)

lemma submit_runs:
  "hpc_jupyter_script cores walltime port email = Inr c
     \<Longrightarrow> fst (hpc_submit_jupyter_job ssh cores walltime port email st)
           = Inr (submit_outcome (ssh (ssh_calls st) c 30))"
  "hpc_custom_command cores walltime script_path = Inr c
     \<Longrightarrow> fst (hpc_submit_custom_job ssh cores walltime script_path st)
           = Inr (submit_outcome (ssh (ssh_calls st) c 30))"
  "conv_jupyter_script gpu_type num_gpus walltime port job_name email = Inr c
     \<Longrightarrow> fst (conv_submit_jupyter_job ssh gpu_type num_gpus walltime port job_name email st)
           = Inr (submit_outcome (ssh (ssh_calls st) c 30))"
  "conv_custom_command gpu_type num_gpus walltime job_name email script_path = Inr c
     \<Longrightarrow> fst (conv_submit_custom_job ssh gpu_type num_gpus walltime job_name email script_path st)
           = Inr (submit_outcome (ssh (ssh_calls st) c 30))"
  by (simp_all add: hpc_submit_jupyter_job_def hpc_submit_custom_job_def
      conv_submit_jupyter_job_def conv_submit_custom_job_def ssh_run_def submit_result_outcome)

text \<open>
  C7: each of the four submission functions returns, as a pair and without raising, what the
  specification says of the result of its remote command: the stripped standard output and
  an empty error when that output is a non-empty run of digits; otherwise an empty id and,
  as the error, the stripped standard error or the default message when that is empty. So
  the error is non-empty, and the id empty, exactly when the output is no numeric id.

  The remote command exists once its text is built, which formats the numbers of cores or
  of devices and the port. That succeeds for every integer of at most 4300 digits, and the
  applications pass no other: a number of cores or of devices is \<open>int\<close> of a field that
  \<open>is_int\<close> accepts, which has returned, and the port is 8888 or 9888.
\<close>

theorem submission_outcome:
  "(convertible cores \<and> convertible port \<longrightarrow>
      (\<exists>c. hpc_jupyter_script cores walltime port email = Inr c \<and>
           fst (hpc_submit_jupyter_job ssh cores walltime port email st)
             = Inr (submit_outcome (ssh (ssh_calls st) c 30)))) \<and>
   (convertible cores \<longrightarrow>
      (\<exists>c. hpc_custom_command cores walltime script_path = Inr c \<and>
           fst (hpc_submit_custom_job ssh cores walltime script_path st)
             = Inr (submit_outcome (ssh (ssh_calls st) c 30)))) \<and>
   (convertible num_gpus \<and> convertible port \<longrightarrow>
      (\<exists>c. conv_jupyter_script gpu_type num_gpus walltime port job_name email = Inr c \<and>
           fst (conv_submit_jupyter_job ssh gpu_type num_gpus walltime port job_name email st)
             = Inr (submit_outcome (ssh (ssh_calls st) c 30)))) \<and>
   (convertible num_gpus \<longrightarrow>
      (\<exists>c. conv_custom_command gpu_type num_gpus walltime job_name email script_path = Inr c \<and>
           fst (conv_submit_custom_job ssh gpu_type num_gpus walltime job_name email script_path st)
             = Inr (submit_outcome (ssh (ssh_calls st) c 30)))) \<and>
   (snd (submit_outcome (out, err, rc)) \<noteq> [] \<longleftrightarrow> \<not> numeric (strip out)) \<and>
   (fst (submit_outcome (out, err, rc)) = [] \<longleftrightarrow> \<not> numeric (strip out)) \<and>
   (is_int field \<and> py_int (strip field) = Inr n \<longrightarrow> convertible n) \<and>
   convertible 8888 \<and> convertible 9888"
proof -
  have "\<exists>c. hpc_jupyter_script cores walltime port email = Inr c \<and>
           fst (hpc_submit_jupyter_job ssh cores walltime port email st)
             = Inr (submit_outcome (ssh (ssh_calls st) c 30))"
    if "convertible cores \<and> convertible port"
    using scripts_built(1) [OF that] submit_runs(1) by blast
  moreover have "\<exists>c. hpc_custom_command cores walltime script_path = Inr c \<and>
           fst (hpc_submit_custom_job ssh cores walltime script_path st)
             = Inr (submit_outcome (ssh (ssh_calls st) c 30))"
    if "convertible cores"
    using scripts_built(2) [OF that] submit_runs(2) by blast
  moreover have "\<exists>c. conv_jupyter_script gpu_type num_gpus walltime port job_name email = Inr c \<and>
           fst (conv_submit_jupyter_job ssh gpu_type num_gpus walltime port job_name email st)
             = Inr (submit_outcome (ssh (ssh_calls st) c 30))"
    if "convertible num_gpus \<and> convertible port"
    using scripts_built(3) [OF that] submit_runs(3) by blast
  moreover have "\<exists>c. conv_custom_command gpu_type num_gpus walltime job_name email script_path = Inr c \<and>
           fst (conv_submit_custom_job ssh gpu_type num_gpus walltime job_name email script_path st)
             = Inr (submit_outcome (ssh (ssh_calls st) c 30))"
    if "convertible num_gpus"
    using scripts_built(4) [OF that] submit_runs(4) by blast
  moreover have "snd (submit_outcome (out, err, rc)) \<noteq> [] \<longleftrightarrow> \<not> numeric (strip out)"
    by (simp add: submit_outcome_def)
  moreover have "fst (submit_outcome (out, err, rc)) = [] \<longleftrightarrow> \<not> numeric (strip out)"
    by (auto simp: submit_outcome_def numeric_def)
  moreover have "convertible n" if "is_int field \<and> py_int (strip field) = Inr n"
  proof -
    from that have "re_match number_pattern (strip field) \<noteq> None"
      unfolding is_int_def by (rule conjunct1)
    then have "numeric (strip field)"
      by (simp only: number_pattern_strip)
    with that py_int_convertible [of "strip field" n] show ?thesis
      by (simp add: numeric_def)
  qed
  moreover have "convertible 8888" and "convertible 9888"
    by (simp_all add: convertible_def max_str_digits_def digits.simps)
  ultimately show ?thesis
    by blast
qed

theorem submission_outcome_witness:
  "fst (hpc_submit_jupyter_job (\<lambda>n c t. (''4242\<newline>'', ''warning'', 0)) 4 ''1:0:0'' 8888 ''a@b.fr''
          \<lparr>ssh_calls = 0, trace = []\<rparr>) = Inr (''4242'', []) \<and>
   fst (conv_submit_custom_job (\<lambda>n c t. (''sbatch: error'', [], 0)) ''a100'' 1 ''1:0:0'' ''job'' ''a@b.fr''
          ''run.sh'' \<lparr>ssh_calls = 0, trace = []\<rparr>) = Inr ([], ''Failed to submit job'') \<and>
   is_int '' 16 '' \<and> py_int (strip '' 16 '') = Inr 16 \<and> convertible 16"
proof -
  have c: "convertible 4" "convertible 8888" "convertible 1"
    by (simp_all add: convertible_def max_str_digits_def digits.simps)
  have i: "is_int '' 16 ''" "py_int (strip '' 16 '') = Inr 16"
    by code_simp+
  note a = submission_outcome [where ssh = "\<lambda>n c t. (''4242\<newline>'', ''warning'', 0)" and cores = 4
          and walltime = "''1:0:0''" and port = 8888 and email = "''a@b.fr''"
          and st = "\<lparr>ssh_calls = 0, trace = []\<rparr>" and field = "'' 16 ''" and n = 16]
  note b = submission_outcome [where ssh = "\<lambda>n c t. (''sbatch: error'', [], 0)" and gpu_type = "''a100''"
          and num_gpus = 1 and walltime = "''1:0:0''" and job_name = "''job''" and email = "''a@b.fr''"
          and script_path = "''run.sh''" and st = "\<lparr>ssh_calls = 0, trace = []\<rparr>"]
  from a c have "fst (hpc_submit_jupyter_job (\<lambda>n c t. (''4242\<newline>'', ''warning'', 0)) 4 ''1:0:0'' 8888
      ''a@b.fr'' \<lparr>ssh_calls = 0, trace = []\<rparr>) = Inr (submit_outcome (''4242\<newline>'', ''warning'', 0))"
    by auto
  moreover from b c have "fst (conv_submit_custom_job (\<lambda>n c t. (''sbatch: error'', [], 0)) ''a100'' 1
      ''1:0:0'' ''job'' ''a@b.fr'' ''run.sh'' \<lparr>ssh_calls = 0, trace = []\<rparr>)
        = Inr (submit_outcome (''sbatch: error'', [], 0))"
    by auto
  moreover have "submit_outcome (''4242\<newline>'', ''warning'', 0) = (''4242'', [])"
    "submit_outcome (''sbatch: error'', [], 0) = ([], ''Failed to submit job'')"
    by code_simp+
  moreover from a i have "convertible 16"
    by blast
  ultimately show ?thesis
    using i by simp
qed

section \<open>Endpoint resolution\<close>

lemma hpc_cancel_is_no_query:
  "hpc_cancel_command j' \<noteq> hpc_node_command j" "hpc_cancel_command j' \<noteq> hpc_url_command j"
  by (simp_all add: hpc_cancel_command_def hpc_node_command_def hpc_url_command_def)

lemma conv_cancel_is_no_query:
  "conv_cancel_command j' \<noteq> conv_node_command j" "conv_cancel_command j' \<noteq> conv_url_command j"
  by (simp_all add: conv_cancel_command_def conv_node_command_def conv_url_command_def)

lemma commands_of_append [simp]: "commands_of (xs @ ys) = commands_of xs @ commands_of ys"
  by (induction xs rule: commands_of.induct) auto

lemma sleeps_of_append [simp]: "sleeps_of (xs @ ys) = sleeps_of xs @ sleeps_of ys"
  by (induction xs rule: sleeps_of.induct) auto

lemma notes_of_append [simp]: "notes_of (xs @ ys) = notes_of xs @ notes_of ys"
  by (induction xs rule: notes_of.induct) auto

text \<open>Each of the four queries runs one command and returns its stripped standard output.\<close>

lemma queries:
  "hpc_get_job_node ssh j st =
     (strip (fst (ssh (ssh_calls st) (hpc_node_command j) 30)),
      st\<lparr>ssh_calls := ssh_calls st + 1, trace := trace st @ [Ssh_run (hpc_node_command j) 30]\<rparr>)"
  "hpc_get_jupyter_url ssh j st =
     (strip (fst (ssh (ssh_calls st) (hpc_url_command j) 30)),
      st\<lparr>ssh_calls := ssh_calls st + 1, trace := trace st @ [Ssh_run (hpc_url_command j) 30]\<rparr>)"
  "conv_get_job_node ssh j st =
     (strip (fst (ssh (ssh_calls st) (conv_node_command j) 30)),
      st\<lparr>ssh_calls := ssh_calls st + 1, trace := trace st @ [Ssh_run (conv_node_command j) 30]\<rparr>)"
  "conv_get_jupyter_url ssh j st =
     (strip (fst (ssh (ssh_calls st) (conv_url_command j) 30)),
      st\<lparr>ssh_calls := ssh_calls st + 1, trace := trace st @ [Ssh_run (conv_url_command j) 30]\<rparr>)"
  by (auto simp: hpc_get_job_node_def hpc_get_jupyter_url_def conv_get_job_node_def
      conv_get_jupyter_url_def ssh_run_def split: prod.splits)

lemma url_loop_bounded:
  assumes q: "\<And>st. q ssh j st =
     (strip (fst (ssh (ssh_calls st) (cmd j) 30)),
      st\<lparr>ssh_calls := ssh_calls st + 1, trace := trace st @ [Ssh_run (cmd j) 30]\<rparr>)"
  shows "\<exists>k evs. k \<le> n \<and>
           trace (snd (url_loop q ssh j n url st)) = trace st @ evs \<and>
           ssh_calls (snd (url_loop q ssh j n url st)) = ssh_calls st + k \<and>
           commands_of evs = replicate k (cmd j) \<and>
           sleeps_of evs = replicate (if fst (url_loop q ssh j n url st) = [] then k else k - 1) 2 \<and>
           notes_of evs = [] \<and>
           (k = 0 \<longrightarrow> fst (url_loop q ssh j n url st) = url)"
proof (induction n arbitrary: url st)
  case 0
  show ?case
    by (intro exI [of _ 0] exI [of _ "[]"]) simp
next
  case (Suc n)
  let ?u = "strip (fst (ssh (ssh_calls st) (cmd j) 30))"
  let ?st1 = "st\<lparr>ssh_calls := ssh_calls st + 1, trace := trace st @ [Ssh_run (cmd j) 30]\<rparr>"
  note q = q [of st]
  show ?case
  proof (cases "?u = []")
    case False
    with q have "url_loop q ssh j (Suc n) url st = (?u, ?st1)"
      by simp
    with False show ?thesis
      by (intro exI [of _ 1] exI [of _ "[Ssh_run (cmd j) 30]"]) simp
  next
    case True
    with q have step: "url_loop q ssh j (Suc n) url st = url_loop q ssh j n [] (sleep 2 ?st1)"
      by simp
    from Suc.IH [of "[]" "sleep 2 ?st1"] obtain k evs where
      k: "k \<le> n" and
      tr: "trace (snd (url_loop q ssh j n [] (sleep 2 ?st1))) = trace (sleep 2 ?st1) @ evs" and
      calls: "ssh_calls (snd (url_loop q ssh j n [] (sleep 2 ?st1))) = ssh_calls (sleep 2 ?st1) + k" and
      cs: "commands_of evs = replicate k (cmd j)" and
      ss: "sleeps_of evs = replicate (if fst (url_loop q ssh j n [] (sleep 2 ?st1)) = [] then k else k - 1) 2" and
      ns: "notes_of evs = []" and
      z: "k = 0 \<longrightarrow> fst (url_loop q ssh j n [] (sleep 2 ?st1)) = []"
      by blast
    have "fst (url_loop q ssh j n [] (sleep 2 ?st1)) \<noteq> [] \<Longrightarrow> 0 < k"
      using z by (cases k) auto
    then have "sleeps_of ([Ssh_run (cmd j) 30, Sleep 2] @ evs)
        = replicate (if fst (url_loop q ssh j (Suc n) url st) = [] then Suc k else Suc k - 1) 2"
      using ss step by (cases k) auto
    with k tr calls cs ns step show ?thesis
      by (intro exI [of _ "Suc k"] exI [of _ "[Ssh_run (cmd j) 30, Sleep 2] @ evs"])
         (simp add: sleep_def)
  qed
qed

lemma url_loop_all_fail:
  assumes q: "\<And>st. q ssh j st =
     (strip (fst (ssh (ssh_calls st) (cmd j) 30)),
      st\<lparr>ssh_calls := ssh_calls st + 1, trace := trace st @ [Ssh_run (cmd j) 30]\<rparr>)"
    and none: "\<And>i. strip (fst (ssh i (cmd j) 30)) = []"
  shows "url_loop q ssh j n [] st =
     ([], st\<lparr>ssh_calls := ssh_calls st + n,
              trace := trace st @ concat (replicate n [Ssh_run (cmd j) 30, Sleep 2])\<rparr>)"
proof (induction n arbitrary: st)
  case 0
  show ?case by simp
next
  case (Suc n)
  show ?case
    by (simp add: q none Suc.IH sleep_def)
qed

lemma connect_to_bounded:
  assumes qn: "\<And>st. gn ssh j st =
     (strip (fst (ssh (ssh_calls st) (cn j) 30)),
      st\<lparr>ssh_calls := ssh_calls st + 1, trace := trace st @ [Ssh_run (cn j) 30]\<rparr>)"
    and qu: "\<And>st. gu ssh j st =
     (strip (fst (ssh (ssh_calls st) (cu j) 30)),
      st\<lparr>ssh_calls := ssh_calls st + 1, trace := trace st @ [Ssh_run (cu j) 30]\<rparr>)"
  shows "\<exists>k m evs. k \<le> 30 \<and> m \<le> k \<and>
           trace (connect_to gn gu dp ssh j st) = trace st @ evs \<and>
           ssh_calls (connect_to gn gu dp ssh j st) = ssh_calls st + 1 + k \<and>
           commands_of evs = cn j # replicate k (cu j) \<and>
           sleeps_of evs = replicate m 2"
proof -
  let ?node = "strip (fst (ssh (ssh_calls st) (cn j) 30))"
  let ?st1 = "st\<lparr>ssh_calls := ssh_calls st + 1, trace := trace st @ [Ssh_run (cn j) 30]\<rparr>"
  show ?thesis
  proof (cases "?node = [] \<or> \<not> is_name ?node")
    case True
    then have "connect_to gn gu dp ssh j st
        = notify (''Could not find node for job '' @ j) Error ?st1"
      by (auto simp: connect_to_def qn)
    then show ?thesis
      by (intro exI [of _ 0] exI [of _ "[Ssh_run (cn j) 30,
            Notify (''Could not find node for job '' @ j) Error]"]) (simp add: notify_def)
  next
    case False
    let ?st2 = "notify (''Waiting for Jupyter on '' @ ?node @ ''...'') Information ?st1"
    let ?r = "url_loop gu ssh j 30 [] ?st2"
    from url_loop_bounded [of gu ssh j cu 30 "[]" ?st2, OF qu] obtain k evs where
      k: "k \<le> 30" and
      tr: "trace (snd ?r) = trace ?st2 @ evs" and
      calls: "ssh_calls (snd ?r) = ssh_calls ?st2 + k" and
      cs: "commands_of evs = replicate k (cu j)" and
      ss: "sleeps_of evs = replicate (if fst ?r = [] then k else k - 1) 2" and
      ns: "notes_of evs = []"
      by blast
    obtain e where
      fin: "connect_to gn gu dp ssh j st = (snd ?r)\<lparr>trace := trace (snd ?r) @ [e]\<rparr>"
        and e: "commands_of [e] = []" "sleeps_of [e] = []"
    proof (cases "fst ?r = []")
      case True
      with False have "connect_to gn gu dp ssh j st
          = (snd ?r)\<lparr>trace := trace (snd ?r) @ [Notify ''Jupyter didn't start. Check job logs.'' Error]\<rparr>"
        by (auto simp: connect_to_def qn notify_def split: prod.splits)
      then show ?thesis
        by (rule that) simp_all
    next
      case nonempty: False
      let ?port = "case re_search port_pattern (fst ?r) of
                     Some (_, g, _) \<Rightarrow> py_int (g ! 0) | None \<Rightarrow> Inr dp"
      show ?thesis
      proof (cases ?port)
        case (Inl err)
        with nonempty False have "connect_to gn gu dp ssh j st
            = (snd ?r)\<lparr>trace := trace (snd ?r) @ [Worker_raises err]\<rparr>"
          by (auto simp: connect_to_def qn raise_def split: prod.splits)
        then show ?thesis
          by (rule that) simp_all
      next
        case (Inr port)
        with nonempty False have "connect_to gn gu dp ssh j st
            = (snd ?r)\<lparr>trace := trace (snd ?r) @ [Push_session_screen j ?node (fst ?r)
                  (re_sub1 url_host_pattern ''http://localhost:'' (fst ?r)) port]\<rparr>"
          by (auto simp: connect_to_def qn push_screen_def Let_def split: prod.splits)
        then show ?thesis
          by (rule that) simp_all
      qed
    qed
    let ?evs = "[Ssh_run (cn j) 30, Notify (''Waiting for Jupyter on '' @ ?node @ ''...'') Information]
                @ evs @ [e]"
    have "trace (connect_to gn gu dp ssh j st) = trace st @ ?evs"
      using fin tr by (simp add: notify_def)
    moreover have "ssh_calls (connect_to gn gu dp ssh j st) = ssh_calls st + 1 + k"
      using fin calls by (simp add: notify_def)
    moreover have "commands_of ?evs = cn j # replicate k (cu j)"
      using cs e by simp
    moreover have "sleeps_of ?evs = replicate (if fst ?r = [] then k else k - 1) 2"
      using ss e by simp
    moreover have "(if fst ?r = [] then k else k - 1) \<le> k"
      by simp
    ultimately show ?thesis
      using k by blast
  qed
qed

lemma connect_to_all_fail:
  assumes qn: "\<And>st. gn ssh j st =
     (strip (fst (ssh (ssh_calls st) (cn j) 30)),
      st\<lparr>ssh_calls := ssh_calls st + 1, trace := trace st @ [Ssh_run (cn j) 30]\<rparr>)"
    and qu: "\<And>st. gu ssh j st =
     (strip (fst (ssh (ssh_calls st) (cu j) 30)),
      st\<lparr>ssh_calls := ssh_calls st + 1, trace := trace st @ [Ssh_run (cu j) 30]\<rparr>)"
    and node: "strip (fst (ssh (ssh_calls st) (cn j) 30)) = node" "node \<noteq> []" "is_name node"
    and none: "\<And>i. strip (fst (ssh i (cu j) 30)) = []"
  shows "trace (connect_to gn gu dp ssh j st) =
     trace st
     @ [Ssh_run (cn j) 30, Notify (''Waiting for Jupyter on '' @ node @ ''...'') Information]
     @ concat (replicate 30 [Ssh_run (cu j) 30, Sleep 2])
     @ [Notify ''Jupyter didn't start. Check job logs.'' Error]"
  using node
  by (simp add: connect_to_def qn notify_def url_loop_all_fail [of gu ssh j cu, OF qu none])

text \<open>
  C8: in both applications endpoint resolution first runs the node query and then the URL
  query at most 30 times, sleeping two seconds after each attempt that gave no URL and
  never sleeping otherwise; it runs no cancel command and always ends: with the session
  screen, with a message, or, when the port in the URL has more digits than \<open>int\<close>
  converts, with its ValueError. When the node is found and every attempt gives no URL,
  the trace is exactly the node query, the waiting message, 30 rounds of URL query and
  two-second sleep, and the error message \<open>Jupyter didn't start. Check job logs.\<close>
\<close>

theorem endpoint_resolution_bounded:
  "(\<exists>k m evs. k \<le> 30 \<and> m \<le> k \<and>
      trace (hpc_connect_to ssh j st) = trace st @ evs \<and>
      commands_of evs = hpc_node_command j # replicate k (hpc_url_command j) \<and>
      sleeps_of evs = replicate m 2 \<and>
      hpc_cancel_command j \<notin> set (commands_of evs)) \<and>
   (strip (fst (ssh (ssh_calls st) (hpc_node_command j) 30)) = node \<and> node \<noteq> [] \<and>
    is_name node \<and> (\<forall>i. strip (fst (ssh i (hpc_url_command j) 30)) = []) \<longrightarrow>
      trace (hpc_connect_to ssh j st) =
        trace st
        @ [Ssh_run (hpc_node_command j) 30,
           Notify (''Waiting for Jupyter on '' @ node @ ''...'') Information]
        @ concat (replicate 30 [Ssh_run (hpc_url_command j) 30, Sleep 2])
        @ [Notify ''Jupyter didn't start. Check job logs.'' Error]) \<and>
   (\<exists>k m evs. k \<le> 30 \<and> m \<le> k \<and>
      trace (conv_connect_to ssh j st) = trace st @ evs \<and>
      commands_of evs = conv_node_command j # replicate k (conv_url_command j) \<and>
      sleeps_of evs = replicate m 2 \<and>
      conv_cancel_command j \<notin> set (commands_of evs)) \<and>
   (strip (fst (ssh (ssh_calls st) (conv_node_command j) 30)) = node \<and> node \<noteq> [] \<and>
    is_name node \<and> (\<forall>i. strip (fst (ssh i (conv_url_command j) 30)) = []) \<longrightarrow>
      trace (conv_connect_to ssh j st) =
        trace st
        @ [Ssh_run (conv_node_command j) 30,
           Notify (''Waiting for Jupyter on '' @ node @ ''...'') Information]
        @ concat (replicate 30 [Ssh_run (conv_url_command j) 30, Sleep 2])
        @ [Notify ''Jupyter didn't start. Check job logs.'' Error])"
proof (intro conjI impI)
  from connect_to_bounded [of hpc_get_job_node ssh j hpc_node_command hpc_get_jupyter_url
      hpc_url_command 8888 st, OF queries(1) queries(2)]
  obtain k m evs where "k \<le> 30" "m \<le> k"
    "trace (hpc_connect_to ssh j st) = trace st @ evs"
    "commands_of evs = hpc_node_command j # replicate k (hpc_url_command j)"
    "sleeps_of evs = replicate m 2"
    unfolding hpc_connect_to_def by blast
  moreover from this have "hpc_cancel_command j \<notin> set (commands_of evs)"
    using hpc_cancel_is_no_query [of j j] by auto
  ultimately show "\<exists>k m evs. k \<le> 30 \<and> m \<le> k \<and>
      trace (hpc_connect_to ssh j st) = trace st @ evs \<and>
      commands_of evs = hpc_node_command j # replicate k (hpc_url_command j) \<and>
      sleeps_of evs = replicate m 2 \<and>
      hpc_cancel_command j \<notin> set (commands_of evs)"
    by blast
next
  from connect_to_bounded [of conv_get_job_node ssh j conv_node_command conv_get_jupyter_url
      conv_url_command 9888 st, OF queries(3) queries(4)]
  obtain k m evs where "k \<le> 30" "m \<le> k"
    "trace (conv_connect_to ssh j st) = trace st @ evs"
    "commands_of evs = conv_node_command j # replicate k (conv_url_command j)"
    "sleeps_of evs = replicate m 2"
    unfolding conv_connect_to_def by blast
  moreover from this have "conv_cancel_command j \<notin> set (commands_of evs)"
    using conv_cancel_is_no_query [of j j] by auto
  ultimately show "\<exists>k m evs. k \<le> 30 \<and> m \<le> k \<and>
      trace (conv_connect_to ssh j st) = trace st @ evs \<and>
      commands_of evs = conv_node_command j # replicate k (conv_url_command j) \<and>
      sleeps_of evs = replicate m 2 \<and>
      conv_cancel_command j \<notin> set (commands_of evs)"
    by blast
next
  assume h: "strip (fst (ssh (ssh_calls st) (hpc_node_command j) 30)) = node \<and> node \<noteq> [] \<and>
    is_name node \<and> (\<forall>i. strip (fst (ssh i (hpc_url_command j) 30)) = [])"
  then show "trace (hpc_connect_to ssh j st) =
        trace st
        @ [Ssh_run (hpc_node_command j) 30,
           Notify (''Waiting for Jupyter on '' @ node @ ''...'') Information]
        @ concat (replicate 30 [Ssh_run (hpc_url_command j) 30, Sleep 2])
        @ [Notify ''Jupyter didn't start. Check job logs.'' Error]"
    unfolding hpc_connect_to_def
    by (intro connect_to_all_fail [where gn = hpc_get_job_node and cn = hpc_node_command
          and gu = hpc_get_jupyter_url and cu = hpc_url_command, OF queries(1) queries(2)])
       simp_all
next
  assume h: "strip (fst (ssh (ssh_calls st) (conv_node_command j) 30)) = node \<and> node \<noteq> [] \<and>
    is_name node \<and> (\<forall>i. strip (fst (ssh i (conv_url_command j) 30)) = [])"
  then show "trace (conv_connect_to ssh j st) =
        trace st
        @ [Ssh_run (conv_node_command j) 30,
           Notify (''Waiting for Jupyter on '' @ node @ ''...'') Information]
        @ concat (replicate 30 [Ssh_run (conv_url_command j) 30, Sleep 2])
        @ [Notify ''Jupyter didn't start. Check job logs.'' Error]"
    unfolding conv_connect_to_def
    by (intro connect_to_all_fail [where gn = conv_get_job_node and cn = conv_node_command
          and gu = conv_get_jupyter_url and cu = conv_url_command, OF queries(3) queries(4)])
       simp_all
qed

theorem endpoint_resolution_bounded_witness:
  "trace (hpc_connect_to
      (\<lambda>n c t. if c = hpc_node_command ''42'' then (''big12\<newline>'', [], 0) else ([], [], 1))
      ''42'' \<lparr>ssh_calls = 0, trace = []\<rparr>) =
     [Ssh_run (hpc_node_command ''42'') 30, Notify ''Waiting for Jupyter on big12...'' Information]
     @ concat (replicate 30 [Ssh_run (hpc_url_command ''42'') 30, Sleep 2])
     @ [Notify ''Jupyter didn't start. Check job logs.'' Error] \<and>
   trace (conv_connect_to
      (\<lambda>n c t. if c = conv_node_command ''42'' then (''node07\<newline>'', [], 0) else ([], [], 1))
      ''42'' \<lparr>ssh_calls = 0, trace = []\<rparr>) =
     [Ssh_run (conv_node_command ''42'') 30, Notify ''Waiting for Jupyter on node07...'' Information]
     @ concat (replicate 30 [Ssh_run (conv_url_command ''42'') 30, Sleep 2])
     @ [Notify ''Jupyter didn't start. Check job logs.'' Error]"
proof -
  let ?r = "\<lambda>(n::nat) c (t::int).
    if c = hpc_node_command ''42'' then (''big12\<newline>'', [] :: string, 0 :: int) else ([], [], 1)"
  let ?r' = "\<lambda>(n::nat) c (t::int).
    if c = conv_node_command ''42'' then (''node07\<newline>'', [] :: string, 0 :: int) else ([], [], 1)"
  have s1: "strip ''big12\<newline>'' = ''big12''" and s2: "strip ''node07\<newline>'' = ''node07''"
    and s0: "strip [] = []"
    by code_simp+
  have n1: "is_name ''big12''" and n2: "is_name ''node07''"
    by code_simp+
  have d1: "hpc_url_command ''42'' \<noteq> hpc_node_command ''42''"
    and d2: "conv_url_command ''42'' \<noteq> conv_node_command ''42''"
    by (simp_all add: hpc_url_command_def hpc_node_command_def conv_url_command_def
        conv_node_command_def)
  from endpoint_resolution_bounded [where ssh = ?r and j = "''42''"
      and st = "\<lparr>ssh_calls = 0, trace = []\<rparr>" and node = "''big12''"]
    endpoint_resolution_bounded [where ssh = ?r' and j = "''42''"
      and st = "\<lparr>ssh_calls = 0, trace = []\<rparr>" and node = "''node07''"]
  show ?thesis
    by (simp add: s0 s1 s2 n1 n2 d1 d2 del: replicate.simps)
qed

section \<open>Job listing of the SLURM adapter\<close>

lemma conv_jobs_loop_total: "\<exists>js. conv_jobs_loop ls jobs = Some js"
proof (induction ls arbitrary: jobs)
  case Nil
  show ?case by simp
next
  case (Cons line rest)
  let ?parts = "split (CHR ''|'') (strip line)"
  consider "8 \<le> length ?parts" | "length ?parts < 8" "4 \<le> length ?parts" | "length ?parts < 4"
    by linarith
  then show ?case
  proof cases
    case 1
    then show ?thesis
      using Cons.IH by (auto simp: idx_def Let_def)
  next
    case 2
    then show ?thesis
      using Cons.IH by (auto simp: idx_def Let_def)
  next
    case 3
    then show ?thesis
      using Cons.IH by (simp add: Let_def)
  qed
qed

lemma conv_jobs_loop_full:
  assumes "8 \<le> length (split (CHR ''|'') (strip line))"
  shows "conv_jobs_loop (line # rest) jobs =
     conv_jobs_loop rest
       (jobs @ [\<lparr>slurm_job_id = split (CHR ''|'') (strip line) ! 0,
                 slurm_name = split (CHR ''|'') (strip line) ! 1,
                 slurm_state = split (CHR ''|'') (strip line) ! 2,
                 slurm_node = split (CHR ''|'') (strip line) ! 3,
                 slurm_elapsed = split (CHR ''|'') (strip line) ! 4,
                 slurm_time_limit = split (CHR ''|'') (strip line) ! 5,
                 slurm_time_left = split (CHR ''|'') (strip line) ! 6,
                 slurm_reason = split (CHR ''|'') (strip line) ! 7\<rparr>])"
  using assms by (auto simp: idx_def Let_def)

lemma conv_jobs_loop_partial:
  assumes "4 \<le> length (split (CHR ''|'') (strip line))"
    and "length (split (CHR ''|'') (strip line)) < 8"
  shows "conv_jobs_loop (line # rest) jobs =
     conv_jobs_loop rest
       (jobs @ [\<lparr>slurm_job_id = split (CHR ''|'') (strip line) ! 0,
                 slurm_name = split (CHR ''|'') (strip line) ! 1,
                 slurm_state = split (CHR ''|'') (strip line) ! 2,
                 slurm_node = split (CHR ''|'') (strip line) ! 3,
                 slurm_elapsed = [], slurm_time_limit = [], slurm_time_left = [],
                 slurm_reason = []\<rparr>])"
  using assms by (auto simp: idx_def Let_def)

lemma conv_jobs_loop_dropped:
  assumes "length (split (CHR ''|'') (strip line)) < 4"
  shows "conv_jobs_loop (line # rest) jobs = conv_jobs_loop rest jobs"
  using assms by (simp add: Let_def)

lemma conv_fetch_jobs_lines:
  assumes "ssh (ssh_calls st) (squeue_command u) 30 = (out, err, 0)"
    and "splitlines (strip out) \<noteq> []"
  shows "fst (conv_fetch_jobs ssh u st) = conv_jobs_loop (splitlines (strip out)) []"
proof -
  from assms(2) have "strip out \<noteq> []"
    by (auto simp: splitlines_def)
  with assms(1) show ?thesis
    by (simp add: conv_fetch_jobs_def ssh_run_def)
qed

text \<open>
  A listing whose second line stops after four fields, \<open>2|b|PENDING|\<close>, gives two records.
\<close>

theorem short_line_kept:
  "map_option length
     (fst (conv_fetch_jobs
        (\<lambda>n c t. (''1|a|RUNNING|n1|0:01|1:00|0:59|None\<newline>2|b|PENDING|'', [], 0))
        ''bob'' \<lparr>ssh_calls = 0, trace = []\<rparr>)) = Some 2"
  by code_simp

text \<open>
  C5, as the code has it: parsing the job listing never fails. Of a listing of two lines, one
  with at least eight fields and one with fewer than four, in either order, exactly the
  record of the first kind is returned and the other line is dropped; a line of four to
  seven fields is not dropped but gives a record of its first four fields.
\<close>

theorem listing_lines:
  "(\<exists>jobs. fst (conv_fetch_jobs ssh u st) = Some jobs) \<and>
   (ssh (ssh_calls st) (squeue_command u) 30 = (out, err, 0) \<and>
    (splitlines (strip out) = [good, bad] \<or> splitlines (strip out) = [bad, good]) \<and>
    8 \<le> length (split (CHR ''|'') (strip good)) \<and>
    length (split (CHR ''|'') (strip bad)) < 4 \<longrightarrow>
      fst (conv_fetch_jobs ssh u st) =
        Some [\<lparr>slurm_job_id = split (CHR ''|'') (strip good) ! 0,
               slurm_name = split (CHR ''|'') (strip good) ! 1,
               slurm_state = split (CHR ''|'') (strip good) ! 2,
               slurm_node = split (CHR ''|'') (strip good) ! 3,
               slurm_elapsed = split (CHR ''|'') (strip good) ! 4,
               slurm_time_limit = split (CHR ''|'') (strip good) ! 5,
               slurm_time_left = split (CHR ''|'') (strip good) ! 6,
               slurm_reason = split (CHR ''|'') (strip good) ! 7\<rparr>]) \<and>
   (ssh (ssh_calls st) (squeue_command u) 30 = (out, err, 0) \<and>
    splitlines (strip out) = [short] \<and>
    4 \<le> length (split (CHR ''|'') (strip short)) \<and>
    length (split (CHR ''|'') (strip short)) < 8 \<longrightarrow>
      fst (conv_fetch_jobs ssh u st) =
        Some [\<lparr>slurm_job_id = split (CHR ''|'') (strip short) ! 0,
               slurm_name = split (CHR ''|'') (strip short) ! 1,
               slurm_state = split (CHR ''|'') (strip short) ! 2,
               slurm_node = split (CHR ''|'') (strip short) ! 3,
               slurm_elapsed = [], slurm_time_limit = [], slurm_time_left = [],
               slurm_reason = []\<rparr>])"
proof (intro conjI impI)
  show "\<exists>jobs. fst (conv_fetch_jobs ssh u st) = Some jobs"
    using conv_jobs_loop_total [of "splitlines (strip (fst (ssh (ssh_calls st) (squeue_command u) 30)))" "[]"]
    by (auto simp: conv_fetch_jobs_def ssh_run_def split: prod.splits)
next
  assume h: "ssh (ssh_calls st) (squeue_command u) 30 = (out, err, 0) \<and>
    (splitlines (strip out) = [good, bad] \<or> splitlines (strip out) = [bad, good]) \<and>
    8 \<le> length (split (CHR ''|'') (strip good)) \<and>
    length (split (CHR ''|'') (strip bad)) < 4"
  then have "fst (conv_fetch_jobs ssh u st) = conv_jobs_loop (splitlines (strip out)) []"
    by (intro conv_fetch_jobs_lines [of ssh st u out err]) auto
  with h show "fst (conv_fetch_jobs ssh u st) =
        Some [\<lparr>slurm_job_id = split (CHR ''|'') (strip good) ! 0,
               slurm_name = split (CHR ''|'') (strip good) ! 1,
               slurm_state = split (CHR ''|'') (strip good) ! 2,
               slurm_node = split (CHR ''|'') (strip good) ! 3,
               slurm_elapsed = split (CHR ''|'') (strip good) ! 4,
               slurm_time_limit = split (CHR ''|'') (strip good) ! 5,
               slurm_time_left = split (CHR ''|'') (strip good) ! 6,
               slurm_reason = split (CHR ''|'') (strip good) ! 7\<rparr>]"
    by (auto simp: conv_jobs_loop_full conv_jobs_loop_dropped simp del: conv_jobs_loop.simps(2))
next
  assume h: "ssh (ssh_calls st) (squeue_command u) 30 = (out, err, 0) \<and>
    splitlines (strip out) = [short] \<and>
    4 \<le> length (split (CHR ''|'') (strip short)) \<and>
    length (split (CHR ''|'') (strip short)) < 8"
  then have "fst (conv_fetch_jobs ssh u st) = conv_jobs_loop (splitlines (strip out)) []"
    by (intro conv_fetch_jobs_lines [of ssh st u out err]) auto
  with h show "fst (conv_fetch_jobs ssh u st) =
        Some [\<lparr>slurm_job_id = split (CHR ''|'') (strip short) ! 0,
               slurm_name = split (CHR ''|'') (strip short) ! 1,
               slurm_state = split (CHR ''|'') (strip short) ! 2,
               slurm_node = split (CHR ''|'') (strip short) ! 3,
               slurm_elapsed = [], slurm_time_limit = [], slurm_time_left = [],
               slurm_reason = []\<rparr>]"
    by (auto simp: conv_jobs_loop_partial simp del: conv_jobs_loop.simps(2))
qed

theorem listing_lines_witness:
  "fst (conv_fetch_jobs
      (\<lambda>n c t. (''1|a|RUNNING|n1|0:01|1:00|0:59|None\<newline>2|b|PEND\<newline>'', [], 0))
      ''bob'' \<lparr>ssh_calls = 0, trace = []\<rparr>) =
     Some [\<lparr>slurm_job_id = ''1'', slurm_name = ''a'', slurm_state = ''RUNNING'',
            slurm_node = ''n1'', slurm_elapsed = ''0:01'', slurm_time_limit = ''1:00'',
            slurm_time_left = ''0:59'', slurm_reason = ''None''\<rparr>] \<and>
   fst (conv_fetch_jobs (\<lambda>n c t. (''2|b|PENDING|'', [], 0)) ''bob'' \<lparr>ssh_calls = 0, trace = []\<rparr>) =
     Some [\<lparr>slurm_job_id = ''2'', slurm_name = ''b'', slurm_state = ''PENDING'',
            slurm_node = [], slurm_elapsed = [], slurm_time_limit = [],
            slurm_time_left = [], slurm_reason = []\<rparr>]"
proof -
  have l: "splitlines (strip ''1|a|RUNNING|n1|0:01|1:00|0:59|None\<newline>2|b|PEND\<newline>'')
      = [''1|a|RUNNING|n1|0:01|1:00|0:59|None'', ''2|b|PEND'']"
    and g: "split (CHR ''|'') (strip ''1|a|RUNNING|n1|0:01|1:00|0:59|None'')
      = [''1'', ''a'', ''RUNNING'', ''n1'', ''0:01'', ''1:00'', ''0:59'', ''None'']"
    and b: "split (CHR ''|'') (strip ''2|b|PEND'') = [''2'', ''b'', ''PEND'']"
    and l': "splitlines (strip ''2|b|PENDING|'') = [''2|b|PENDING|'']"
    and s: "split (CHR ''|'') (strip ''2|b|PENDING|'') = [''2'', ''b'', ''PENDING'', []]"
    by code_simp+
  from listing_lines [where ssh = "\<lambda>n c t. (''1|a|RUNNING|n1|0:01|1:00|0:59|None\<newline>2|b|PEND\<newline>'', [], 0)"
      and u = "''bob''" and st = "\<lparr>ssh_calls = 0, trace = []\<rparr>"
      and out = "''1|a|RUNNING|n1|0:01|1:00|0:59|None\<newline>2|b|PEND\<newline>''" and err = "[]"
      and good = "''1|a|RUNNING|n1|0:01|1:00|0:59|None''" and bad = "''2|b|PEND''"]
    listing_lines [where ssh = "\<lambda>n c t. (''2|b|PENDING|'', [], 0)"
      and u = "''bob''" and st = "\<lparr>ssh_calls = 0, trace = []\<rparr>"
      and out = "''2|b|PENDING|''" and err = "[]" and short = "''2|b|PENDING|''"]
  show ?thesis
    by (simp add: l g b l' s)
qed

section \<open>Block-structured listing of the OAR adapter\<close>

subsection \<open>What a match tells\<close>

lemma rmatch_Lit_SomeD:
  assumes "rmatch (Lit t # its) i s g = Some r"
  shows "take (length t) s = t \<and> rmatch its (i + length t) (drop (length t) s) g = Some r"
  using assms by (auto split: if_splits)

lemma rmatch_Star_SomeD:
  assumes "rmatch (Star c # its) i s g = Some r"
  shows "\<exists>k. rmatch its (i + k) (drop k s) g = Some r"
  using assms greedy_SomeD [of "\<lambda>k. rmatch its (i + k) (drop k s) g" 0 _ r] by auto

lemma rmatch_Chr_SomeD:
  assumes "rmatch (Chr c # its) i s g = Some r"
  shows "\<exists>x xs. s = x # xs \<and> has c x \<and> rmatch its (Suc i) xs g = Some r"
  using assms by (auto split: list.splits if_splits)

lemma take_takeWhile_all:
  assumes "k \<le> length (takeWhile P s)"
  shows "list_all P (take k s)"
proof -
  have "take k s = take k (takeWhile P s @ dropWhile P s)"
    by simp
  also have "\<dots> = take k (takeWhile P s)"
    using assms by (simp del: takeWhile_dropWhile_id)
  finally have "set (take k s) \<subseteq> set (takeWhile P s)"
    by (simp add: set_take_subset)
  then show ?thesis
    by (auto simp: list_all_iff dest: set_takeWhileD)
qed

lemma rmatch_Grp_plus_end:
  assumes "rmatch [Grp_plus Digit] i s g = Some (g', e)"
  shows "\<exists>d. g' = g @ [d] \<and> numeric d"
proof -
  let ?f = "\<lambda>k. rmatch [] (i + k) (drop k s) (g @ [take k s])"
  from assms have "greedy ?f 1 (length (takeWhile isdigit s)) = Some (g', e)"
    by (simp add: has_Digit)
  then obtain k where k: "1 \<le> k" "k \<le> length (takeWhile isdigit s)" and "?f k = Some (g', e)"
    using greedy_SomeD [of ?f 1 _ "(g', e)"] by blast
  then have g': "g' = g @ [take k s]"
    by simp
  have "k \<le> length s"
    using k(2) length_takeWhile_le [of isdigit s] by linarith
  with k(1) have "take k s \<noteq> []"
    by (cases s) auto
  with k(2) have "numeric (take k s)"
    by (simp add: numeric_def take_takeWhile_all)
  with g' show ?thesis
    by blast
qed

lemma job_id_pattern_group:
  assumes "re_match job_id_pattern line = Some g"
  shows "\<exists>d. g = [d] \<and> numeric d"
proof -
  from assms obtain e where "rmatch job_id_pattern 0 line [] = Some (g, e)"
    by (auto simp: re_match_def)
  then have "rmatch (Lit ''Job_Id'' # [Star Space, Chr colon, Star Space, Grp_plus Digit]) 0 line []
      = Some (g, e)"
    by (simp only: job_id_pattern_def)
  then obtain i1 s1 where "rmatch (Star Space # [Chr colon, Star Space, Grp_plus Digit]) i1 s1 []
      = Some (g, e)"
    using rmatch_Lit_SomeD by blast
  then obtain i2 s2 where "rmatch (Chr colon # [Star Space, Grp_plus Digit]) i2 s2 [] = Some (g, e)"
    using rmatch_Star_SomeD by blast
  then obtain i3 s3 where "rmatch (Star Space # [Grp_plus Digit]) i3 s3 [] = Some (g, e)"
    using rmatch_Chr_SomeD by blast
  then obtain i4 s4 where "rmatch [Grp_plus Digit] i4 s4 [] = Some (g, e)"
    using rmatch_Star_SomeD by blast
  then show ?thesis
    using rmatch_Grp_plus_end [of i4 s4 "[]" g e] by simp
qed

lemma header_id_numeric:
  assumes "is_header line"
  shows "re_match job_id_pattern line = Some [header_id line]" and "numeric (header_id line)"
  using assms job_id_pattern_group [of line]
  by (auto simp: is_header_def header_id_def)

lemma search_at_SomeD:
  assumes "search_at p i s = Some (a, g, e)"
  shows "\<exists>s'. rmatch p a s' [] = Some (g, e)"
  using assms
proof (induction s arbitrary: i)
  case Nil
  then show ?case by auto
next
  case (Cons x xs)
  then show ?case
    by (cases "rmatch p i (x # xs) []") auto
qed

lemma core_pattern_group:
  assumes "re_search core_pattern line = Some (a, g, e)"
  shows "g \<noteq> []"
proof -
  from assms obtain s' where "rmatch (Lit ''core='' # [Grp_plus Digit]) a s' [] = Some (g, e)"
    using search_at_SomeD [of core_pattern 0 line a g e]
    by (auto simp: re_search_def core_pattern_def)
  then obtain i1 s1 where "rmatch [Grp_plus Digit] i1 s1 [] = Some (g, e)"
    using rmatch_Lit_SomeD by blast
  then show ?thesis
    using rmatch_Grp_plus_end [of i1 s1 "[]" g e] by auto
qed

subsection \<open>A line of a block never fails and never changes the id\<close>

lemma contains_set:
  assumes "contains sub s"
  shows "set sub \<subseteq> set s"
  using assms
proof (induction s)
  case Nil
  then show ?case by simp
next
  case (Cons c cs)
  from Cons.prems have "take (length sub) (c # cs) = sub \<or> contains sub cs"
    by simp
  then show ?case
  proof
    assume "take (length sub) (c # cs) = sub"
    then have "set sub \<subseteq> set (c # cs)"
      by (metis set_take_subset)
    then show ?thesis .
  next
    assume "contains sub cs"
    with Cons.IH show ?thesis by auto
  qed
qed

lemma value_of_Some:
  assumes "contains sub line" and "CHR ''='' \<in> set sub"
  shows "\<exists>v. value_of line = Some v"
proof -
  from assms have "CHR ''='' \<in> set line"
    using contains_set by blast
  then show ?thesis
    by (simp add: value_of_def split1_def idx_def)
qed

lemma oar_field_Some:
  "\<exists>job'. oar_field line job = Some job' \<and> oar_job_id job' = oar_job_id job"
proof -
  have v: "contains sub line \<Longrightarrow> CHR ''='' \<in> set sub \<Longrightarrow> \<exists>v. value_of line = Some v" for sub
    by (rule value_of_Some)
  have c: "re_search core_pattern line = Some (a, g, e) \<Longrightarrow> idx g 0 = Some (g ! 0)" for a g e
    using core_pattern_group [of line a g e] by (simp add: idx_def)
  show ?thesis
    unfolding oar_field_def
    using v [of "''name =''"] v [of "''state =''"] v [of "''walltime =''"]
      v [of "''startTime =''"] v [of "''assigned_hostnames =''"] c
    by (auto split: option.splits)
qed

lemma apply_line_field: "oar_field line job = Some (apply_line job line)"
  using oar_field_Some [of line job] by (auto simp: apply_line_def)

lemma apply_line_id [simp]: "oar_job_id (apply_line job line) = oar_job_id job"
  using oar_field_Some [of line job] by (auto simp: apply_line_def)

lemma foldl_apply_line_id [simp]: "oar_job_id (foldl apply_line job ls) = oar_job_id job"
  by (induction ls arbitrary: job) auto

subsection \<open>The loop\<close>

lemma oarstat_loop_current:
  assumes "oar_job_id c \<noteq> []"
  shows "oarstat_loop ls jobs (Some c) =
     Some (jobs @ foldl apply_line c (takeWhile (\<lambda>x. \<not> is_header x) ls)
                  # map job_of_block (blocks ls))"
  using assms
proof (induction ls arbitrary: jobs c)
  case Nil
  then show ?case by (simp add: flush_def)
next
  case (Cons l ls)
  show ?case
  proof (cases "is_header l")
    case True
    have "oar_job_id (new_OARJob (header_id l)) \<noteq> []"
      using header_id_numeric(2) [OF True] by (simp add: new_OARJob_def numeric_def)
    from Cons.IH [OF this, of "jobs @ [c]"] True Cons.prems show ?thesis
      by (simp add: header_id_numeric(1) idx_def flush_def job_of_block_def)
  next
    case False
    then have "re_match job_id_pattern l = None"
      by (simp add: is_header_def)
    moreover have "oar_job_id (apply_line c l) \<noteq> []"
      using Cons.prems by simp
    ultimately show ?thesis
      using Cons.IH [of "apply_line c l" jobs] False
      by (simp add: apply_line_field)
  qed
qed

lemma oarstat_loop_blocks:
  "oarstat_loop ls jobs None = Some (jobs @ map job_of_block (blocks ls))"
proof (induction ls arbitrary: jobs)
  case Nil
  show ?case by (simp add: flush_def)
next
  case (Cons l ls)
  show ?case
  proof (cases "is_header l")
    case True
    have "oar_job_id (new_OARJob (header_id l)) \<noteq> []"
      using header_id_numeric(2) [OF True] by (simp add: new_OARJob_def numeric_def)
    from oarstat_loop_current [OF this, of ls jobs] True show ?thesis
      by (simp add: header_id_numeric(1) idx_def flush_def job_of_block_def)
  next
    case False
    then have "re_match job_id_pattern l = None"
      by (simp add: is_header_def)
    with Cons.IH [of jobs] False show ?thesis
      by simp
  qed
qed

lemma blocks_headers: "map fst (blocks ls) = filter is_header ls"
  by (induction ls) auto

lemma job_of_block_id: "map (oar_job_id \<circ> job_of_block) bs = map (header_id \<circ> fst) bs"
  by (induction bs) (auto simp: job_of_block_def new_OARJob_def)

text \<open>
  C6: for every text \<open>parse_oarstat_full\<close> returns, and never fails; it returns the records
  of the blocks of the text in order, one for each header line, each with the numeric id of
  its header and filled from the lines of its own block only, that is from the lines after
  its header up to the next header line. A text with no header line gives the empty list.
\<close>

theorem oarstat_blocks:
  "parse_oarstat_full text0 = Some (map job_of_block (blocks (splitlines text0))) \<and>
   map oar_job_id (map job_of_block (blocks (splitlines text0)))
     = map header_id (filter is_header (splitlines text0)) \<and>
   list_all numeric (map header_id (filter is_header (splitlines text0))) \<and>
   (filter is_header (splitlines text0) = [] \<longrightarrow> parse_oarstat_full text0 = Some [])"
proof (intro conjI impI)
  show p: "parse_oarstat_full text0 = Some (map job_of_block (blocks (splitlines text0)))"
    by (simp add: parse_oarstat_full_def oarstat_loop_blocks)
  show "map oar_job_id (map job_of_block (blocks (splitlines text0)))
     = map header_id (filter is_header (splitlines text0))"
    using job_of_block_id [of "blocks (splitlines text0)"]
      blocks_headers [of "splitlines text0"]
    by (metis map_map)
  show "list_all numeric (map header_id (filter is_header (splitlines text0)))"
    by (simp add: list_all_iff header_id_numeric(2))
  assume "filter is_header (splitlines text0) = []"
  then have "blocks (splitlines text0) = []"
    using blocks_headers [of "splitlines text0"] by simp
  with p show "parse_oarstat_full text0 = Some []"
    by simp
qed

theorem oarstat_blocks_witness:
  "parse_oarstat_full
     ''Job_Id: 12\<newline>    name = foo\<newline>    state = Running\<newline>Job_Id: 13\<newline>    walltime = 1:0:0''
     = Some [\<lparr>oar_job_id = ''12'', oar_name = ''foo'', oar_state = ''Running'', oar_walltime = [],
               oar_start_time = [], oar_node = [], oar_cores = []\<rparr>,
             \<lparr>oar_job_id = ''13'', oar_name = [], oar_state = [], oar_walltime = ''1:0:0'',
               oar_start_time = [], oar_node = [], oar_cores = []\<rparr>] \<and>
   parse_oarstat_full ''    name = foo\<newline>    state = Running'' = Some []"
proof -
  have b: "map job_of_block (blocks (splitlines
      ''Job_Id: 12\<newline>    name = foo\<newline>    state = Running\<newline>Job_Id: 13\<newline>    walltime = 1:0:0''))
     = [\<lparr>oar_job_id = ''12'', oar_name = ''foo'', oar_state = ''Running'', oar_walltime = [],
               oar_start_time = [], oar_node = [], oar_cores = []\<rparr>,
             \<lparr>oar_job_id = ''13'', oar_name = [], oar_state = [], oar_walltime = ''1:0:0'',
               oar_start_time = [], oar_node = [], oar_cores = []\<rparr>]"
    and h: "filter is_header (splitlines ''    name = foo\<newline>    state = Running'') = []"
    by code_simp+
  from oarstat_blocks [of
      "''Job_Id: 12\<newline>    name = foo\<newline>    state = Running\<newline>Job_Id: 13\<newline>    walltime = 1:0:0''"]
  have "parse_oarstat_full
      ''Job_Id: 12\<newline>    name = foo\<newline>    state = Running\<newline>Job_Id: 13\<newline>    walltime = 1:0:0''
    = Some (map job_of_block (blocks (splitlines
      ''Job_Id: 12\<newline>    name = foo\<newline>    state = Running\<newline>Job_Id: 13\<newline>    walltime = 1:0:0'')))"
    by (rule conjunct1)
  then have two: "parse_oarstat_full
      ''Job_Id: 12\<newline>    name = foo\<newline>    state = Running\<newline>Job_Id: 13\<newline>    walltime = 1:0:0''
     = Some [\<lparr>oar_job_id = ''12'', oar_name = ''foo'', oar_state = ''Running'', oar_walltime = [],
               oar_start_time = [], oar_node = [], oar_cores = []\<rparr>,
             \<lparr>oar_job_id = ''13'', oar_name = [], oar_state = [], oar_walltime = ''1:0:0'',
               oar_start_time = [], oar_node = [], oar_cores = []\<rparr>]"
    by (simp only: b)
  from oarstat_blocks [of "''    name = foo\<newline>    state = Running''"]
  have "filter is_header (splitlines ''    name = foo\<newline>    state = Running'') = [] \<longrightarrow>
      parse_oarstat_full ''    name = foo\<newline>    state = Running'' = Some []"
    by (elim conjE)
  then have none: "parse_oarstat_full ''    name = foo\<newline>    state = Running'' = Some []"
    by (simp only: h simp_thms)
  from two none show ?thesis
    by (rule conjI)
qed

section \<open>Tokens of a composite duration\<close>

subsection \<open>What a match of the token pattern tells\<close>

lemma rmatch_Grp_plus_SomeD:
  assumes "rmatch (Grp_plus c # its) i s g = Some r"
  shows "\<exists>k. 1 \<le> k \<and> k \<le> length (takeWhile (has c) s) \<and>
           rmatch its (i + k) (drop k s) (g @ [take k s]) = Some r"
  using assms
    greedy_SomeD [of "\<lambda>k. rmatch its (i + k) (drop k s) (g @ [take k s])" 1 _ r]
  by auto

lemma rmatch_Grp_chr_SomeD:
  assumes "rmatch (Grp_chr c # its) i s g = Some r"
  shows "\<exists>x xs. s = x # xs \<and> has c x \<and> rmatch its (Suc i) xs (g @ [[x]]) = Some r"
  using assms by (auto split: list.splits if_splits)

lemma take_numeric:
  assumes "1 \<le> k" and "k \<le> length (takeWhile isdigit s)"
  shows "numeric (take k s)"
proof -
  have "k \<le> length s"
    using assms(2) length_takeWhile_le [of isdigit s] by linarith
  with assms(1) have "take k s \<noteq> []"
    by (cases s) auto
  with assms(2) show ?thesis
    by (simp add: numeric_def take_takeWhile_all)
qed

lemma token_pattern_SomeD:
  assumes "rmatch token_pattern i s [] = Some (g, j)"
  shows "is_token g \<and> i < j \<and> i + length s \<ge> j \<and> (\<exists>x \<in> set s. x \<in> set ''dhm'')"
proof -
  from assms have "rmatch (Grp_plus Digit # [Star Space, Grp_chr (Among [] ''dhm'')]) i s []
      = Some (g, j)"
    by (simp only: token_pattern_def)
  from rmatch_Grp_plus_SomeD [OF this] obtain k where
    k: "1 \<le> k" "k \<le> length (takeWhile (has Digit) s)" and
    "rmatch (Star Space # [Grp_chr (Among [] ''dhm'')]) (i + k) (drop k s) ([] @ [take k s])
      = Some (g, j)"
    by blast
  from rmatch_Star_SomeD [OF this(3)] obtain k' where
    "rmatch (Grp_chr (Among [] ''dhm'') # []) (i + k + k') (drop k' (drop k s)) ([] @ [take k s])
      = Some (g, j)"
    by blast
  from rmatch_Grp_chr_SomeD [OF this] obtain x xs where
    x: "drop k' (drop k s) = x # xs" "has (Among [] ''dhm'') x" and
    "rmatch [] (Suc (i + k + k')) xs (([] @ [take k s]) @ [[x]]) = Some (g, j)"
    by blast
  then have g: "g = [take k s, [x]]" and j: "j = Suc (i + k + k')"
    by simp_all
  from x(1) have "x \<in> set (drop k' (drop k s))"
    by simp
  then have "x \<in> set s"
    by (meson in_set_dropD)
  moreover from x(2) have dhm: "x \<in> set ''dhm''"
    by simp
  moreover from dhm have "[x] \<in> {''d'', ''h'', ''m''}"
    by auto
  moreover have "numeric (take k s)"
    using k by (intro take_numeric) (simp_all add: has_Digit)
  moreover have "k + k' < length s"
  proof -
    from x(1) have "drop (k' + k) s \<noteq> []"
      by simp
    then show ?thesis
      by (simp add: add.commute)
  qed
  ultimately show ?thesis
    using g j by (auto simp: is_token_def)
qed

lemma findall_at_Nil: "findall_at token_pattern i [] = []"
proof -
  have "rmatch token_pattern i [] [] = None"
    by (simp add: token_pattern_def)
  then show ?thesis
    by (simp add: findall_at.simps [of token_pattern i "[]"])
qed

lemma findall_tokens: "list_all is_token (findall_at token_pattern i s)"
proof (induction s arbitrary: i rule: length_induct)
  case (1 s)
  show ?case
  proof (cases s)
    case Nil
    then show ?thesis
      by (simp add: findall_at_Nil)
  next
    case (Cons x xs)
    show ?thesis
    proof (cases "rmatch token_pattern i s []")
      case None
      moreover have "list_all is_token (findall_at token_pattern (Suc i) xs)"
        using "1.IH" Cons by simp
      ultimately show ?thesis
        using Cons by (simp add: findall_at.simps [of token_pattern i])
    next
      case (Some r)
      obtain g j where r: "r = (g, j)"
        by (cases r)
      with Some token_pattern_SomeD [of i s g j] have tok: "is_token g" and ij: "i < j"
        by simp_all
      have "length (drop (j - i) s) < length s"
        using ij Cons by simp
      then have "list_all is_token (findall_at token_pattern j (drop (j - i) s))"
        using "1.IH" by blast
      with Some r ij tok Cons show ?thesis
        by (simp add: findall_at.simps [of token_pattern i])
    qed
  qed
qed
subsection \<open>Texts that trimming and lower-casing leave alone\<close>

lemma strip_id:
  assumes "s \<noteq> []" and "\<not> isspace (hd s)" and "\<not> isspace (last s)"
  shows "strip s = s"
proof -
  from assms(1,2) have l: "lstrip s = s"
    by (cases s) (simp_all add: lstrip_def)
  from assms(1,3) have "dropWhile isspace (rev s) = rev s"
    by (cases "rev s") (simp_all add: hd_rev [symmetric] del: hd_rev)
  then have "rstrip s = s"
    by (simp add: rstrip_def)
  with l show ?thesis
    by (simp add: strip_def)
qed

lemma digit_not_space:
  assumes "isdigit c"
  shows "\<not> isspace c"
  using assms by (auto simp: isdigit_def isspace_def)

lemma digit_lower:
  assumes "isdigit c"
  shows "lower_char c = c"
  using assms by (auto simp: isdigit_def lower_char_def Let_def)

lemma lower_append: "lower (a @ b) = lower a @ lower b"
  by (simp add: lower_def)

lemma lower_Cons: "lower (c # s) = lower_char c # lower s"
  by (simp add: lower_def)

lemma lower_digits:
  assumes "list_all isdigit s"
  shows "lower s = s"
  using assms by (induction s) (simp_all add: lower_def digit_lower)

lemma lower_marks:
  "lower_char (CHR '':'') = CHR '':''" "lower_char (CHR ''-'') = CHR ''-''"
  "lower_char (CHR '' '') = CHR '' ''" "lower_char (CHR ''d'') = CHR ''d''"
  "lower_char (CHR ''h'') = CHR ''h''" "lower_char (CHR ''m'') = CHR ''m''"
  by (simp_all add: lower_char_def)

lemma marks_not_space:
  "\<not> isspace (CHR ''d'')" "\<not> isspace (CHR ''h'')" "\<not> isspace (CHR ''m'')"
  "\<not> isspace (CHR '':'')" "\<not> isspace (CHR ''-'')"
  by (simp_all add: isspace_def)

lemma marks_not_digit:
  "\<not> isdigit (CHR ''d'')" "\<not> isdigit (CHR ''h'')" "\<not> isdigit (CHR ''m'')"
  "\<not> isdigit (CHR '':'')" "\<not> isdigit (CHR ''-'')" "\<not> isdigit (CHR '' '')"
  by (simp_all add: isdigit_def)

lemma hd_numeric:
  assumes "numeric s"
  shows "isdigit (hd s)" and "isdigit (last s)"
  using assms by (auto simp: numeric_def list_all_iff)

subsection \<open>Matching a run of digits\<close>

lemma takeWhile_run:
  assumes "list_all P ds" and "rest = [] \<or> \<not> P (hd rest)"
  shows "takeWhile P (ds @ rest) = ds"
  using assms by (cases rest) (auto simp: list_all_iff takeWhile_append2)

lemma dropWhile_run:
  assumes "list_all P ds" and "rest = [] \<or> \<not> P (hd rest)"
  shows "dropWhile P (ds @ rest) = rest"
  using assms by (cases rest) (auto simp: list_all_iff dropWhile_append2)

lemma rmatch_Chr_Cons:
  "rmatch (Chr c # its) i (x # xs) g = (if has c x then rmatch its (Suc i) xs g else None)"
  by simp

lemma grp_digits_then:
  assumes "numeric ds" and "rest = [] \<or> \<not> isdigit (hd rest)"
    and "rmatch its (i + length ds) rest (g @ [ds]) = Some r"
  shows "rmatch (Grp_plus Digit # its) i (ds @ rest) g = Some r"
proof -
  let ?f = "\<lambda>k. rmatch its (i + k) (drop k (ds @ rest)) (g @ [take k (ds @ rest)])"
  from assms(1,2) have tw: "takeWhile (has Digit) (ds @ rest) = ds"
    by (simp add: has_Digit numeric_def takeWhile_run)
  from assms(1) have "1 \<le> length ds"
    by (cases ds) (simp_all add: numeric_def)
  moreover from assms(3) have "?f (length ds) = Some r"
    by simp
  ultimately have "greedy ?f 1 (length ds) = Some r"
    by (rule greedy_first)
  then show ?thesis
    by (simp add: tw)
qed

text \<open>The pattern H:M:S on three runs of digits joined by colons, and on other texts.\<close>

lemma hms_match:
  assumes "numeric a" and "numeric b" and "numeric c"
  shows "re_match hms_pattern (a @ CHR '':'' # b @ CHR '':'' # c) = Some [a, b, c]"
proof -
  let ?e = "length a + 1 + length b + 1 + length c"
  have 3: "rmatch (Grp_plus Digit # [Eos]) i (c @ []) g = Some (g @ [c], i + length c)" for i g
    using assms(3) by (intro grp_digits_then) simp_all
  have 2: "rmatch (Grp_plus Digit # [Chr colon, Grp_plus Digit, Eos]) i (b @ CHR '':'' # c) g
      = Some (g @ [b, c], i + length b + 1 + length c)" for i g
    using assms(2) 3 [of "Suc (i + length b)" "g @ [b]"]
    by (intro grp_digits_then)
       (simp_all add: rmatch_Chr_Cons marks_not_digit colon_def del: rmatch.simps)
  have "rmatch (Grp_plus Digit # [Chr colon, Grp_plus Digit, Chr colon, Grp_plus Digit, Eos]) 0
      (a @ CHR '':'' # b @ CHR '':'' # c) [] = Some ([a, b, c], ?e)"
    using assms(1) 2 [of "Suc (length a)" "[a]"]
    by (intro grp_digits_then)
       (simp_all add: rmatch_Chr_Cons marks_not_digit colon_def del: rmatch.simps)
  then show ?thesis
    by (simp add: re_match_def hms_pattern_def del: rmatch.simps(2))
       (simp add: rmatch.simps(2) [of Bos])
qed

lemma hms_no_match:
  assumes "dropWhile isdigit s = [] \<or> hd (dropWhile isdigit s) \<noteq> CHR '':''"
  shows "re_match hms_pattern s = None"
proof -
  let ?its = "[Chr colon, Grp_plus Digit, Chr colon, Grp_plus Digit, Eos]"
  let ?n = "length (takeWhile isdigit s)"
  have "rmatch ?its (0 + k) (drop k s) ([] @ [take k s]) = None" if "k \<le> ?n" for k
  proof (cases "drop k s")
    case Nil
    then show ?thesis by simp
  next
    case (Cons x xs)
    have "x \<noteq> CHR '':''"
    proof (cases "k < ?n")
      case True
      then have "k < length s"
        using length_takeWhile_le [of isdigit s] by linarith
      with Cons have "x = s ! k"
        by (metis Cons_nth_drop_Suc list.inject)
      also have "\<dots> = takeWhile isdigit s ! k"
        using True by (simp add: takeWhile_nth)
      finally have "x \<in> set (takeWhile isdigit s)"
        using True by simp
      then have "isdigit x"
        by (auto dest: set_takeWhileD)
      then show ?thesis
        using marks_not_digit(4) by auto
    next
      case False
      with that have "drop k s = dropWhile isdigit s"
        by (simp add: dropWhile_eq_drop)
      with Cons assms show ?thesis
        by auto
    qed
    with Cons show ?thesis
      by (simp add: colon_def)
  qed
  then have "greedy (\<lambda>k. rmatch ?its (0 + k) (drop k s) ([] @ [take k s])) 1 ?n = None"
    by (intro greedy_None) simp
  then show ?thesis
    by (simp add: re_match_def hms_pattern_def has_Digit)
qed

subsection \<open>Finding tokens\<close>

lemma unit_char:
  assumes "u \<in> set ''dhm''"
  shows "\<not> isdigit u" and "\<not> isspace u" and "has (Among [] ''dhm'') u" and "lower_char u = u"
  using assms by (auto simp: marks_not_digit marks_not_space lower_marks)

lemma token_match:
  assumes "numeric ds" and "u \<in> set ''dhm''"
  shows "rmatch token_pattern i (ds @ u # rest) [] = Some ([ds, [u]], i + length ds + 1)"
proof -
  have "rmatch [Star Space, Grp_chr (Among [] ''dhm'')] (i + length ds) (u # rest) ([] @ [ds])
      = Some ([ds, [u]], i + length ds + 1)"
    using unit_char [OF assms(2)] by (simp add: has_Space)
  with assms(1) unit_char(1) [OF assms(2)] show ?thesis
    unfolding token_pattern_def by (intro grp_digits_then) simp_all
qed

lemma findall_token:
  assumes "numeric ds" and "u \<in> set ''dhm''"
  shows "findall_at token_pattern i (ds @ u # rest)
     = [ds, [u]] # findall_at token_pattern (i + length ds + 1) rest"
proof -
  from assms(1) obtain x xs where ds: "ds = x # xs"
    by (cases ds) (simp_all add: numeric_def)
  have "rmatch token_pattern i (x # xs @ u # rest) [] = Some ([ds, [u]], i + length ds + 1)"
    using token_match [OF assms, of i rest] by (simp add: ds)
  then show ?thesis
    by (simp add: findall_at.simps [of token_pattern i "x # xs @ u # rest"] ds)
qed

lemma findall_skip:
  assumes "\<not> isdigit x"
  shows "findall_at token_pattern i (x # xs) = findall_at token_pattern (Suc i) xs"
proof -
  from assms have "rmatch token_pattern i (x # xs) [] = None"
    by (simp add: token_pattern_def has_Digit)
  then show ?thesis
    by (simp add: findall_at.simps [of token_pattern i "x # xs"])
qed

lemma findall_none:
  assumes "\<forall>c \<in> set s. c \<notin> set ''dhm''"
  shows "findall_at token_pattern i s = []"
  using assms
proof (induction s arbitrary: i)
  case Nil
  show ?case by (rule findall_at_Nil)
next
  case (Cons x xs)
  have "rmatch token_pattern i (x # xs) [] = None"
  proof (cases "rmatch token_pattern i (x # xs) []")
    case None
    then show ?thesis .
  next
    case (Some r)
    obtain g j where "r = (g, j)"
      by (cases r)
    with Some token_pattern_SomeD [of i "x # xs" g j] Cons.prems show ?thesis
      by blast
  qed
  with Cons show ?case
    by (simp add: findall_at.simps [of token_pattern i "x # xs"])
qed

subsection \<open>Tokens among other text\<close>

lemma space_not_digit:
  assumes "isspace c"
  shows "\<not> isdigit c"
  using assms digit_not_space by blast

lemma space_not_colon:
  assumes "isspace c"
  shows "c \<noteq> CHR '':''"
  using assms marks_not_space(4) by blast

lemma star_spaces_then:
  assumes "list_all isspace ws" and "rest = [] \<or> \<not> isspace (hd rest)"
    and "rmatch its (i + length ws) rest g = Some r"
  shows "rmatch (Star Space # its) i (ws @ rest) g = Some r"
proof -
  let ?f = "\<lambda>k. rmatch its (i + k) (drop k (ws @ rest)) g"
  from assms(1,2) have tw: "takeWhile (has Space) (ws @ rest) = ws"
    by (simp add: has_Space takeWhile_run)
  have "0 \<le> length ws"
    by simp
  moreover from assms(3) have "?f (length ws) = Some r"
    by simp
  ultimately have "greedy ?f 0 (length ws) = Some r"
    by (rule greedy_first)
  then show ?thesis
    by (simp add: tw)
qed

lemma token_match_spaced:
  assumes "numeric ds" and "list_all isspace ws" and "u \<in> set ''dhm''"
  shows "rmatch token_pattern i (ds @ ws @ u # rest) []
     = Some ([ds, [u]], i + length ds + length ws + 1)"
proof -
  have "rmatch [Grp_chr (Among [] ''dhm'')] (i + length ds + length ws) (u # rest) ([] @ [ds])
      = Some ([ds, [u]], i + length ds + length ws + 1)"
    using unit_char [OF assms(3)] by simp
  with assms(2) unit_char(2) [OF assms(3)] have
    "rmatch (Star Space # [Grp_chr (Among [] ''dhm'')]) (i + length ds) (ws @ u # rest) ([] @ [ds])
      = Some ([ds, [u]], i + length ds + length ws + 1)"
    by (intro star_spaces_then) simp_all
  moreover have "ws @ u # rest = [] \<or> \<not> isdigit (hd (ws @ u # rest))"
    using assms(2) unit_char(1) [OF assms(3)] by (cases ws) (simp_all add: space_not_digit)
  ultimately show ?thesis
    using assms(1) unfolding token_pattern_def by (intro grp_digits_then)
qed

lemma findall_token_spaced:
  assumes "numeric ds" and "list_all isspace ws" and "u \<in> set ''dhm''"
  shows "findall_at token_pattern i (ds @ ws @ u # rest)
     = [ds, [u]] # findall_at token_pattern (i + length ds + length ws + 1) rest"
proof -
  from assms(1) obtain x xs where ds: "ds = x # xs"
    by (cases ds) (simp_all add: numeric_def)
  have "rmatch token_pattern i (x # xs @ ws @ u # rest) []
      = Some ([ds, [u]], i + length ds + length ws + 1)"
    using token_match_spaced [OF assms, of i rest] by (simp add: ds)
  then show ?thesis
    by (simp add: findall_at.simps [of token_pattern i "x # xs @ ws @ u # rest"] ds)
qed

lemma findall_skip_run:
  assumes "list_all (\<lambda>c. \<not> isdigit c) other"
  shows "findall_at token_pattern i (other @ rest)
     = findall_at token_pattern (i + length other) rest"
  using assms by (induction other arbitrary: i) (simp_all add: findall_skip)

lemma findall_segments:
  assumes "list_all is_segment segs" and "list_all (\<lambda>c. \<not> isdigit c) rest"
  shows "findall_at token_pattern i (concat (map segment_text segs) @ rest)
     = map segment_token segs"
  using assms(1)
proof (induction segs arbitrary: i)
  case Nil
  from findall_skip_run [OF assms(2), of i "[]"] show ?case
    by (simp add: findall_at_Nil)
next
  case (Cons sg segs)
  obtain other ds ws u where sg: "sg = (other, ds, ws, u)"
    by (cases sg)
  from Cons.prems have "is_segment sg" and more: "list_all is_segment segs"
    by simp_all
  then have p: "list_all (\<lambda>c. \<not> isdigit c) other" "numeric ds"
    "list_all isspace ws" "u \<in> set ''dhm''"
    by (simp_all add: is_segment_def sg)
  let ?tail = "concat (map segment_text segs) @ rest"
  have "findall_at token_pattern i (other @ ds @ ws @ u # ?tail)
      = findall_at token_pattern (i + length other) (ds @ ws @ u # ?tail)"
    by (rule findall_skip_run [OF p(1)])
  also have "\<dots> = [ds, [u]]
      # findall_at token_pattern (i + length other + length ds + length ws + 1) ?tail"
    by (rule findall_token_spaced [OF p(2-4)])
  also have "\<dots> = [ds, [u]] # map segment_token segs"
    using Cons.IH [OF more] by simp
  finally have "findall_at token_pattern i (other @ ds @ ws @ u # ?tail)
      = [ds, [u]] # map segment_token segs" .
  moreover have "segment_text sg = other @ ds @ ws @ [u]" and "segment_token sg = [ds, [u]]"
    by (simp_all add: sg segment_text_def segment_token_def)
  ultimately show ?case
    by simp
qed

lemma hms_no_digit_head:
  assumes "s \<noteq> []" and "\<not> isdigit (hd s)"
  shows "re_match hms_pattern s = None"
proof -
  from assms have "takeWhile isdigit s = []"
    by (cases s) simp_all
  then show ?thesis
    by (simp add: re_match_def hms_pattern_def has_Digit)
qed

lemma hms_none_segments:
  assumes "list_all is_segment segs" and "segs \<noteq> []"
  shows "re_match hms_pattern (concat (map segment_text segs) @ rest) = None"
proof -
  from assms(2) obtain sg sgs where segs: "segs = sg # sgs"
    by (cases segs) simp_all
  obtain other ds ws u where sg: "sg = (other, ds, ws, u)"
    by (cases sg)
  with segs assms(1) have p: "list_all (\<lambda>c. \<not> isdigit c) other" "numeric ds"
    "list_all isspace ws" "u \<in> set ''dhm''"
    by (simp_all add: is_segment_def)
  let ?tail = "concat (map segment_text sgs) @ rest"
  have t: "concat (map segment_text segs) @ rest = other @ ds @ ws @ u # ?tail"
    by (simp add: segs sg segment_text_def)
  show ?thesis
  proof (cases other)
    case Nil
    have "ws @ u # ?tail = [] \<or> \<not> isdigit (hd (ws @ u # ?tail))"
      using p(3) unit_char(1) [OF p(4)] by (cases ws) (simp_all add: space_not_digit)
    with p(2) have "dropWhile isdigit (ds @ ws @ u # ?tail) = ws @ u # ?tail"
      by (intro dropWhile_run) (simp_all add: numeric_def)
    moreover have "hd (ws @ u # ?tail) \<noteq> CHR '':''"
      using p(3,4) by (cases ws) (auto simp: space_not_colon)
    ultimately have "re_match hms_pattern (ds @ ws @ u # ?tail) = None"
      by (intro hms_no_match) simp
    with Nil t show ?thesis
      by simp
  next
    case (Cons c cs)
    with p(1) have "\<not> isdigit (hd (other @ ds @ ws @ u # ?tail))"
      by simp
    then have "re_match hms_pattern (other @ ds @ ws @ u # ?tail) = None"
      by (intro hms_no_digit_head) simp_all
    with t show ?thesis
      by simp
  qed
qed

subsection \<open>The tokens of any text\<close>

lemma rmatch_Star_bounded:
  assumes "rmatch (Star c # its) i s g = Some r"
  shows "\<exists>k. k \<le> length (takeWhile (has c) s) \<and> rmatch its (i + k) (drop k s) g = Some r"
  using assms
    greedy_SomeD [of "\<lambda>k. rmatch its (i + k) (drop k s) g" 0 "length (takeWhile (has c) s)" r]
  by auto

lemma token_match_shape:
  assumes "rmatch token_pattern i s [] = Some (g, j)"
  shows "\<exists>k k' x xs. 1 \<le> k \<and> k \<le> length (takeWhile isdigit s) \<and>
           k' \<le> length (takeWhile isspace (drop k s)) \<and>
           drop k' (drop k s) = x # xs \<and> x \<in> set ''dhm''"
proof -
  from assms have "rmatch (Grp_plus Digit # [Star Space, Grp_chr (Among [] ''dhm'')]) i s []
      = Some (g, j)"
    by (simp only: token_pattern_def)
  from rmatch_Grp_plus_SomeD [OF this] obtain k where
    k: "1 \<le> k" "k \<le> length (takeWhile (has Digit) s)" and
    "rmatch (Star Space # [Grp_chr (Among [] ''dhm'')]) (i + k) (drop k s) ([] @ [take k s])
      = Some (g, j)"
    by blast
  from rmatch_Star_bounded [OF this(3)] obtain k' where
    k': "k' \<le> length (takeWhile (has Space) (drop k s))" and
    "rmatch (Grp_chr (Among [] ''dhm'') # []) (i + k + k') (drop k' (drop k s)) ([] @ [take k s])
      = Some (g, j)"
    by blast
  from rmatch_Grp_chr_SomeD [OF this(2)] obtain x xs where
    "drop k' (drop k s) = x # xs" "has (Among [] ''dhm'') x"
    by blast
  with k k' show ?thesis
    by (auto simp: has_Digit has_Space)
qed

lemma digit_no_unit:
  assumes "isdigit c"
  shows "c \<notin> set ''dhm''"
  using assms marks_not_digit(1-3) by auto

lemma space_no_unit:
  assumes "isspace c"
  shows "c \<notin> set ''dhm''"
  using assms unit_char(2) by blast

lemma no_token:
  assumes ds: "list_all isdigit ds" and r: "r = [] \<or> \<not> isdigit (hd r)"
    and after: "dropWhile isspace r = [] \<or> hd (dropWhile isspace r) \<notin> set ''dhm''"
  shows "rmatch token_pattern i (ds @ r) [] = None"
proof (rule ccontr)
  assume "rmatch token_pattern i (ds @ r) [] \<noteq> None"
  then obtain g j where "rmatch token_pattern i (ds @ r) [] = Some (g, j)"
    by auto
  from token_match_shape [OF this] obtain k k' x xs where
    k: "k \<le> length (takeWhile isdigit (ds @ r))" and
    k': "k' \<le> length (takeWhile isspace (drop k (ds @ r)))" and
    x: "drop k' (drop k (ds @ r)) = x # xs" "x \<in> set ''dhm''"
    by blast
  from ds r have "takeWhile isdigit (ds @ r) = ds"
    by (rule takeWhile_run)
  with k have kd: "k \<le> length ds"
    by simp
  show False
  proof (cases "k < length ds")
    case True
    then have d: "drop k (ds @ r) = ds ! k # drop (Suc k) ds @ r"
      by (simp add: Cons_nth_drop_Suc)
    from True ds have dg: "isdigit (ds ! k)"
      by (simp add: list_all_length)
    then have "takeWhile isspace (ds ! k # drop (Suc k) ds @ r) = []"
      by (simp add: digit_not_space)
    then have "takeWhile isspace (drop k (ds @ r)) = []"
      by (simp only: d)
    with k' have "k' = 0"
      by simp
    with x(1) d have "x = ds ! k"
      by simp
    with dg x(2) digit_no_unit show False
      by blast
  next
    case False
    with kd have d: "drop k (ds @ r) = r"
      by simp
    show False
    proof (cases "k' < length (takeWhile isspace r)")
      case True
      then have "k' < length r"
        using length_takeWhile_le [of isspace r] by linarith
      with x(1) d have "x = r ! k'"
        by (metis Cons_nth_drop_Suc list.inject)
      also have "\<dots> = takeWhile isspace r ! k'"
        using True by (simp add: takeWhile_nth)
      finally have "x \<in> set (takeWhile isspace r)"
        using True by simp
      then have "isspace x"
        by (auto dest: set_takeWhileD)
      with x(2) space_no_unit show False
        by blast
    next
      case False
      with k' d have "k' = length (takeWhile isspace r)"
        by simp
      then have "dropWhile isspace r = drop k' r"
        by (simp add: dropWhile_eq_drop)
      also from x(1) have "\<dots> = x # xs"
        by (simp only: d)
      finally have e: "dropWhile isspace r = x # xs" .
      from after have "x \<notin> set ''dhm''"
        unfolding e by simp
      with x(2) show False
        by blast
    qed
  qed
qed

lemma findall_skip_digits:
  assumes "list_all isdigit ds" and "r = [] \<or> \<not> isdigit (hd r)"
    and "dropWhile isspace r = [] \<or> hd (dropWhile isspace r) \<notin> set ''dhm''"
  shows "findall_at token_pattern i (ds @ r) = findall_at token_pattern (i + length ds) r"
  using assms(1)
proof (induction ds arbitrary: i)
  case Nil
  show ?case by simp
next
  case (Cons x xs)
  from no_token [OF Cons.prems assms(2,3), of i] have
    "rmatch token_pattern i (x # xs @ r) [] = None"
    by simp
  then have "findall_at token_pattern i (x # xs @ r) = findall_at token_pattern (Suc i) (xs @ r)"
    by (simp add: findall_at.simps [of token_pattern i "x # xs @ r"])
  with Cons show ?case
    by simp
qed

lemma findall_tokens_of: "findall_at token_pattern i s = tokens_of s"
proof (induction s arbitrary: i rule: length_induct)
  case (1 s)
  show ?case
  proof (cases s)
    case Nil
    then show ?thesis
      by (simp add: findall_at_Nil tokens_of.simps [of "[]"])
  next
    case (Cons c cs)
    show ?thesis
    proof (cases "isdigit c")
      case False
      have "findall_at token_pattern (Suc i) cs = tokens_of cs"
        using "1.IH" Cons by simp
      with False Cons show ?thesis
        by (simp add: findall_skip tokens_of.simps [of "c # cs"])
    next
      case True
      define ds r ws after where "ds = takeWhile isdigit s" and "r = dropWhile isdigit s"
        and "ws = takeWhile isspace r" and "after = dropWhile isspace r"
      have s: "s = ds @ r" and rr: "r = ws @ after"
        by (simp_all add: ds_def r_def ws_def after_def)
      have all: "list_all isdigit ds" and sp: "list_all isspace ws"
        by (auto simp: ds_def ws_def list_all_iff dest: set_takeWhileD)
      from True Cons have ne: "ds \<noteq> []"
        by (simp add: ds_def)
      with all have num: "numeric ds"
        by (simp add: numeric_def)
      have r: "r = [] \<or> \<not> isdigit (hd r)"
        unfolding r_def using hd_dropWhile [of isdigit s] by blast
      from ne s have shorter: "length r < length s"
        by (cases ds) simp_all
      have unfold: "tokens_of s =
          (case after of
             [] \<Rightarrow> []
           | u # rest \<Rightarrow>
               if u \<in> set ''dhm'' then [ds, [u]] # tokens_of rest else tokens_of r)"
        unfolding ds_def r_def after_def using True Cons
        by (subst tokens_of.simps) simp
      show ?thesis
      proof (cases after)
        case Nil
        then have "dropWhile isspace r = [] \<or> hd (dropWhile isspace r) \<notin> set ''dhm''"
          by (simp add: after_def)
        from findall_skip_digits [OF all r this, of i] have
          "findall_at token_pattern i s = findall_at token_pattern (i + length ds) r"
          by (simp only: s [symmetric])
        also have "list_all (\<lambda>c. \<not> isdigit c) r"
          using sp Nil rr by (auto simp: list_all_iff space_not_digit)
        from findall_skip_run [OF this, of "i + length ds" "[]"] have
          "findall_at token_pattern (i + length ds) r = []"
          by (simp add: findall_at_Nil)
        finally show ?thesis
          using Nil by (simp add: unfold)
      next
        case (Cons u rest)
        show ?thesis
        proof (cases "u \<in> set ''dhm''")
          case True
          have "s = ds @ ws @ u # rest"
            using s rr Cons by simp
          then have "length rest < length s"
            by simp
          then have "findall_at token_pattern (i + length ds + length ws + 1) rest = tokens_of rest"
            using "1.IH" by blast
          moreover have "findall_at token_pattern i (ds @ ws @ u # rest)
              = [ds, [u]] # findall_at token_pattern (i + length ds + length ws + 1) rest"
            by (rule findall_token_spaced [OF num sp True])
          ultimately have "findall_at token_pattern i s = [ds, [u]] # tokens_of rest"
            using \<open>s = ds @ ws @ u # rest\<close> by simp
          with True Cons show ?thesis
            by (simp only: unfold list.case if_True)
        next
          case False
          with Cons have "dropWhile isspace r = [] \<or> hd (dropWhile isspace r) \<notin> set ''dhm''"
            by (simp add: after_def)
          from findall_skip_digits [OF all r this, of i] have
            "findall_at token_pattern i s = findall_at token_pattern (i + length ds) r"
            by (simp only: s [symmetric])
          also have "\<dots> = tokens_of r"
            using "1.IH" shorter by blast
          finally show ?thesis
            using False Cons by (simp only: unfold list.case if_False)
        qed
      qed
    qed
  qed
qed

subsection \<open>The loop over the tokens\<close>

lemma add_token_short:
  assumes "length (tok ! 0) \<le> max_str_digits"
  shows "add_token tot tok = Inr (tot + token_minutes tok)"
  using assms by (simp add: add_token_def py_int_short token_minutes_def weight_def Let_def)

lemma add_token_long:
  assumes "\<not> length (tok ! 0) \<le> max_str_digits"
  shows "add_token tot tok = Inl ValueError"
  using assms by (simp add: add_token_def py_int_long)

lemma add_tokens_short:
  assumes "list_all (\<lambda>tok. length (tok ! 0) \<le> max_str_digits) toks"
  shows "add_tokens tot toks = Inr (tot + sum_list (map token_minutes toks))"
  using assms by (induction toks arbitrary: tot) (simp_all add: add_token_short)

lemma add_tokens_long:
  assumes "\<not> list_all (\<lambda>tok. length (tok ! 0) \<le> max_str_digits) toks"
  shows "add_tokens tot toks = Inl ValueError"
  using assms
proof (induction toks arbitrary: tot)
  case Nil
  then show ?case by simp
next
  case (Cons tok toks)
  show ?case
  proof (cases "length (tok ! 0) \<le> max_str_digits")
    case True
    with Cons.prems have "\<not> list_all (\<lambda>tok. length (tok ! 0) \<le> max_str_digits) toks"
      by simp
    with Cons.IH True show ?thesis
      by (simp add: add_token_short)
  next
    case False
    then show ?thesis
      by (simp add: add_token_long)
  qed
qed

lemma parse_composite:
  assumes "re_match hms_pattern (lower (strip s)) = None"
    and "re_findall token_pattern (lower (strip s)) \<noteq> []"
  shows "parse_to_minutes s
     = and_then (add_tokens 0 (re_findall token_pattern (lower (strip s))))
         (\<lambda>tot. Inr (Some tot))"
proof -
  from assms(2) have "lower (strip s) \<noteq> []"
    using findall_at_Nil [of 0] by (auto simp: re_findall_def)
  with assms show ?thesis
    by (simp add: parse_to_minutes_def Let_def)
qed

subsection \<open>A token with a number beyond the limit\<close>

lemma nines_numeric: "numeric (replicate (Suc k) (CHR ''9''))"
  by (simp add: numeric_def isdigit_def list_all_iff)

lemma long_token_text:
  fixes k :: nat
  defines "ds \<equiv> replicate (Suc k) (CHR ''9'')"
  shows "lower (strip (ds @ ''h'')) = ds @ ''h''"
    and "re_match hms_pattern (ds @ ''h'') = None"
    and "re_findall token_pattern (ds @ ''h'') = [[ds, ''h'']]"
proof -
  have num: "numeric ds"
    unfolding ds_def by (rule nines_numeric)
  then have all: "list_all isdigit ds"
    by (simp add: numeric_def)
  have "\<not> isspace (hd (ds @ ''h''))"
    using hd_numeric(1) [OF num] num by (simp add: numeric_def digit_not_space)
  then have "strip (ds @ ''h'') = ds @ ''h''"
    by (intro strip_id) (simp_all add: marks_not_space)
  moreover have "lower ''h'' = ''h''"
    by (simp add: lower_def lower_marks)
  ultimately show "lower (strip (ds @ ''h'')) = ds @ ''h''"
    using all by (simp add: lower_append lower_digits)
  have "dropWhile isdigit (ds @ ''h'') = ''h''"
    using all by (intro dropWhile_run) (simp_all add: marks_not_digit)
  then show "re_match hms_pattern (ds @ ''h'') = None"
    by (intro hms_no_match) simp
  show "re_findall token_pattern (ds @ ''h'') = [[ds, ''h'']]"
    using findall_token [OF num, of "CHR ''h''" 0 "[]"]
    by (simp add: re_findall_def findall_at_Nil)
qed

text \<open>
  C10 as it stands does not hold of a text with a token whose number has more than 4300
  digits: the text is not of the form H:M:S and the token is found, but \<open>int\<close> refuses its
  number and \<open>parse_to_minutes\<close> raises ValueError instead of returning the sum.
\<close>

theorem long_token_raises:
  "re_match hms_pattern (lower (strip (replicate (Suc max_str_digits) (CHR ''9'') @ ''h''))) = None \<and>
   re_findall token_pattern (lower (strip (replicate (Suc max_str_digits) (CHR ''9'') @ ''h'')))
     = [[replicate (Suc max_str_digits) (CHR ''9''), ''h'']] \<and>
   parse_to_minutes (replicate (Suc max_str_digits) (CHR ''9'') @ ''h'') = Inl ValueError"
proof -
  let ?ds = "replicate (Suc max_str_digits) (CHR ''9'')"
  note t = long_token_text [of max_str_digits]
  have h: "re_match hms_pattern (lower (strip (?ds @ ''h''))) = None"
    by (simp only: t)
  have f: "re_findall token_pattern (lower (strip (?ds @ ''h''))) = [[?ds, ''h'']]"
    by (simp only: t)
  have "re_findall token_pattern (lower (strip (?ds @ ''h''))) \<noteq> []"
    unfolding f by (rule list.distinct(2))
  from parse_composite [OF h this] have "parse_to_minutes (?ds @ ''h'')
      = and_then (add_tokens 0 [[?ds, ''h'']]) (\<lambda>tot. Inr (Some tot))"
    by (simp only: f)
  moreover have "add_tokens 0 [[?ds, ''h'']] = Inl ValueError"
    by (intro add_tokens_long) simp
  ultimately have "parse_to_minutes (?ds @ ''h'') = Inl ValueError"
    by (simp only: and_then_simps)
  with h f show ?thesis
    by (intro conjI)
qed

text \<open>
  C10, as the code has it. The tokens that the pattern finds in a text are the tokens of
  the text as read from left to right: each a number, a run of digits, and the unit letter
  that follows it after optional white space. In a text made of segments, each a stretch
  without digits, then a number, white space and a unit letter, with a rest without digits
  after the last, they are exactly the numbers and units of the segments, in their order,
  whatever the other text is. When the trimmed, lower-cased text is not of the form H:M:S,
  holds at least one token, and no token has a number of more than 4300 digits, the result
  is the sum of the weighted numbers of the tokens; when some token has a longer number,
  the call raises ValueError. So a text of segments with numbers within the limit gives the
  sum over its segments: \<open>abc 5h xyz\<close> gives 300.
\<close>

theorem composite_ignores_other_text:
  "re_findall token_pattern t = tokens_of t \<and>
   list_all is_token (tokens_of t) \<and>
   (list_all is_segment segs \<and> list_all (\<lambda>c. \<not> isdigit c) rest \<longrightarrow>
      tokens_of (concat (map segment_text segs) @ rest) = map segment_token segs) \<and>
   (re_match hms_pattern (lower (strip s)) = None \<and>
    tokens_of (lower (strip s)) \<noteq> [] \<and>
    list_all (\<lambda>tok. length (tok ! 0) \<le> max_str_digits) (tokens_of (lower (strip s))) \<longrightarrow>
      parse_to_minutes s
        = Inr (Some (sum_list (map token_minutes (tokens_of (lower (strip s))))))) \<and>
   (re_match hms_pattern (lower (strip s)) = None \<and>
    \<not> list_all (\<lambda>tok. length (tok ! 0) \<le> max_str_digits) (tokens_of (lower (strip s))) \<longrightarrow>
      parse_to_minutes s = Inl ValueError) \<and>
   (lower (strip s) = concat (map segment_text segs) @ rest \<and> segs \<noteq> [] \<and>
    list_all is_segment segs \<and> list_all (\<lambda>c. \<not> isdigit c) rest \<and>
    list_all (\<lambda>tok. length (tok ! 0) \<le> max_str_digits) (map segment_token segs) \<longrightarrow>
      parse_to_minutes s = Inr (Some (sum_list (map (token_minutes \<circ> segment_token) segs))))"
proof -
  let ?toks = "tokens_of (lower (strip s))"
  let ?short = "list_all (\<lambda>tok. length (tok ! 0) \<le> max_str_digits)"
  have found: "re_findall token_pattern u = tokens_of u" for u
    by (simp add: re_findall_def findall_tokens_of)
  have 1: "list_all is_token (tokens_of t)"
    using findall_tokens [of 0 t] by (simp add: findall_tokens_of)
  have 2: "tokens_of (concat (map segment_text segs) @ rest) = map segment_token segs"
    if "list_all is_segment segs \<and> list_all (\<lambda>c. \<not> isdigit c) rest"
    using that findall_segments [of segs rest 0] by (simp add: findall_tokens_of)
  have 3: "parse_to_minutes s = Inr (Some (sum_list (map token_minutes ?toks)))"
    if "re_match hms_pattern (lower (strip s)) = None" and "?toks \<noteq> []" and "?short ?toks"
    using parse_composite [of s] add_tokens_short [OF that(3), of 0] that(1,2)
    by (simp add: found)
  have 4: "parse_to_minutes s = Inl ValueError"
    if "re_match hms_pattern (lower (strip s)) = None" and "\<not> ?short ?toks"
  proof -
    from that(2) have "?toks \<noteq> []"
      by auto
    with parse_composite [of s] add_tokens_long [OF that(2), of 0] that(1) show ?thesis
      by (simp add: found)
  qed
  have 5: "parse_to_minutes s = Inr (Some (sum_list (map (token_minutes \<circ> segment_token) segs)))"
    if low: "lower (strip s) = concat (map segment_text segs) @ rest" and ne: "segs \<noteq> []"
      and sg: "list_all is_segment segs" and r: "list_all (\<lambda>c. \<not> isdigit c) rest"
      and sh: "?short (map segment_token segs)"
  proof -
    have toks: "?toks = map segment_token segs"
      using 2 sg r by (simp add: low)
    have "re_match hms_pattern (lower (strip s)) = None"
      unfolding low by (rule hms_none_segments [OF sg ne])
    moreover from ne have "?toks \<noteq> []"
      by (simp add: toks)
    moreover from sh have "?short ?toks"
      by (simp add: toks)
    ultimately have "parse_to_minutes s = Inr (Some (sum_list (map token_minutes ?toks)))"
      by (rule 3)
    then show ?thesis
      by (simp add: toks)
  qed
  from found [of t] 1 2 3 4 5 show ?thesis
    by blast
qed

theorem composite_ignores_other_text_witness:
  "parse_to_minutes ''abc 5h xyz'' = Inr (Some 300) \<and>
   re_findall token_pattern ''x1d, then 2 h! 5 5m 77 x 8''
     = [[''1'', ''d''], [''2'', ''h''], [''5'', ''m'']] \<and>
   tokens_of ''x1d, then 2 h!'' = [[''1'', ''d''], [''2'', ''h'']] \<and>
   parse_to_minutes '' X1D, then 2 H! '' = Inr (Some 1560)"
proof -
  let ?segs = "[(''x'', ''1'', [], CHR ''d''), ('', then '', ''2'', '' '', CHR ''h'')]"
  have a: "re_match hms_pattern (lower (strip ''abc 5h xyz'')) = None"
    "tokens_of (lower (strip ''abc 5h xyz'')) = [[''5'', ''h'']]"
    "token_minutes [''5'', ''h''] = 300"
    by code_simp+
  have b: "lower (strip '' X1D, then 2 H! '') = concat (map segment_text ?segs) @ ''!''"
    "list_all is_segment ?segs"
    "list_all (\<lambda>c. \<not> isdigit c) ''!''"
    "list_all (\<lambda>tok. length (tok ! 0) \<le> max_str_digits) (map segment_token ?segs)"
    "concat (map segment_text ?segs) @ ''!'' = ''x1d, then 2 h!''"
    "map segment_token ?segs = [[''1'', ''d''], [''2'', ''h'']]"
    "sum_list (map (token_minutes \<circ> segment_token) ?segs) = 1560"
    by code_simp+
  have c: "list_all (\<lambda>tok. length (tok ! 0) \<le> max_str_digits) [[''5'', ''h'']]"
    "tokens_of ''x1d, then 2 h! 5 5m 77 x 8'' = [[''1'', ''d''], [''2'', ''h''], [''5'', ''m'']]"
    by code_simp+
  note w1 = composite_ignores_other_text [where s = "''abc 5h xyz''" and segs = "[]" and rest = "[]"
      and t = "''x1d, then 2 h! 5 5m 77 x 8''"]
  note w2 = composite_ignores_other_text [where s = "'' X1D, then 2 H! ''" and segs = ?segs
      and rest = "''!''" and t = "[]"]
  from w1 a c(1) have "parse_to_minutes ''abc 5h xyz'' = Inr (Some 300)"
    by simp
  moreover from w1 have "re_findall token_pattern ''x1d, then 2 h! 5 5m 77 x 8''
      = tokens_of ''x1d, then 2 h! 5 5m 77 x 8''"
    by (rule conjunct1)
  then have "re_findall token_pattern ''x1d, then 2 h! 5 5m 77 x 8''
      = [[''1'', ''d''], [''2'', ''h''], [''5'', ''m'']]"
    by (simp only: c(2))
  moreover from w2 b(2,3) have "tokens_of (concat (map segment_text ?segs) @ ''!'')
      = map segment_token ?segs"
    by blast
  then have "tokens_of ''x1d, then 2 h!'' = [[''1'', ''d''], [''2'', ''h'']]"
    by (simp only: b(5,6))
  moreover from w2 b(1-4) have "parse_to_minutes '' X1D, then 2 H! ''
      = Inr (Some (sum_list (map (token_minutes \<circ> segment_token) ?segs)))"
    by blast
  then have "parse_to_minutes '' X1D, then 2 H! '' = Inr (Some 1560)"
    by (simp only: b(7))
  ultimately show ?thesis
    by blast
qed

section \<open>Round trips of the duration codec\<close>

subsection \<open>Parsing a rendered composite duration\<close>

lemma findall_join:
  assumes "\<forall>(n, u) \<in> set toks. u \<in> set ''dhm''"
  shows "findall_at token_pattern i (join '' '' (map (\<lambda>(n, u). digits n @ [u]) toks))
     = map (\<lambda>(n, u). [digits n, [u]]) toks"
  using assms
proof (induction toks arbitrary: i rule: induct_list012)
  case 1
  show ?case by (simp add: findall_at_Nil)
next
  case (2 x)
  obtain n u where x: "x = (n, u)"
    by (cases x)
  with 2 have "u \<in> set ''dhm''"
    by simp
  then show ?case
    using findall_token [OF digits_numeric, of u i n "[]"]
    by (simp add: x findall_at_Nil)
next
  case (3 x y zs)
  obtain n u where x: "x = (n, u)"
    by (cases x)
  with 3 have u: "u \<in> set ''dhm''"
    by simp
  have "findall_at token_pattern j (join '' '' (map (\<lambda>(n, u). digits n @ [u]) (y # zs)))
      = map (\<lambda>(n, u). [digits n, [u]]) (y # zs)" for j
    using 3 by simp
  then show ?case
    using findall_token [OF digits_numeric u, of i n]
    by (simp add: x findall_skip marks_not_digit)
qed

lemma join_lower:
  assumes "\<forall>(n, u) \<in> set toks. u \<in> set ''dhm''"
  shows "lower (join '' '' (map (\<lambda>(n, u). digits n @ [u]) toks))
     = join '' '' (map (\<lambda>(n, u). digits n @ [u]) toks)"
  using assms
proof (induction toks rule: induct_list012)
  case 1
  show ?case by (simp add: lower_def)
next
  case (2 x)
  obtain n u where x: "x = (n, u)"
    by (cases x)
  with 2 have "lower_char u = u"
    by (simp add: unit_char(4))
  then show ?case
    using lower_digits [OF digits_all, of n]
    by (simp add: x lower_def)
next
  case (3 x y zs)
  obtain n u where x: "x = (n, u)"
    by (cases x)
  with 3 have "lower_char u = u"
    by (simp add: unit_char(4))
  moreover have "lower (join '' '' (map (\<lambda>(n, u). digits n @ [u]) (y # zs)))
      = join '' '' (map (\<lambda>(n, u). digits n @ [u]) (y # zs))"
    using 3 by simp
  ultimately show ?case
    by (simp add: x lower_append lower_Cons lower_digits digits_all lower_marks)
qed

lemma join_last:
  assumes "toks \<noteq> []" and "\<forall>(n, u) \<in> set toks. u \<in> set ''dhm''"
  shows "last (join '' '' (map (\<lambda>(n, u). digits n @ [u]) toks)) \<in> set ''dhm''"
  using assms
proof (induction toks rule: induct_list012)
  case 1
  then show ?case by simp
next
  case (2 x)
  then show ?case
    by (cases x) simp
next
  case (3 x y zs)
  have "join '' '' (map (\<lambda>(n, u). digits n @ [u]) (y # zs)) \<noteq> []"
    by (cases y; cases zs) (simp_all add: digits_nonempty)
  with 3 show ?case
    by (cases x) simp
qed

lemma join_head:
  assumes "toks \<noteq> []" and "\<forall>(n, u) \<in> set toks. u \<in> set ''dhm''"
  shows "\<exists>ds u rest. numeric ds \<and> u \<in> set ''dhm'' \<and>
           join '' '' (map (\<lambda>(n, u). digits n @ [u]) toks) = ds @ u # rest"
proof -
  from assms(1) obtain p ps where toks: "toks = p # ps"
    by (cases toks) simp_all
  obtain n u where p: "p = (n, u)"
    by (cases p)
  with toks assms(2) have u: "u \<in> set ''dhm''"
    by simp
  show ?thesis
  proof (cases ps)
    case Nil
    with toks p u show ?thesis
      by (intro exI [of _ "digits n"] exI [of _ u] exI [of _ "[]"]) (simp add: digits_numeric)
  next
    case (Cons q qs)
    with toks p u show ?thesis
      by (intro exI [of _ "digits n"] exI [of _ u]
            exI [of _ "CHR '' '' # join '' '' (map (\<lambda>(n, u). digits n @ [u]) (q # qs))"])
         (simp add: digits_numeric)
  qed
qed

lemma parse_tokens:
  assumes "toks \<noteq> []" and "\<forall>(n, u) \<in> set toks. u \<in> set ''dhm''"
    and "\<forall>(n, u) \<in> set toks. convertible (int n)"
  shows "parse_to_minutes (join '' '' (map (\<lambda>(n, u). digits n @ [u]) toks))
     = Inr (Some (sum_list (map (\<lambda>(n, u). int n * weight [u]) toks)))"
proof -
  let ?t = "join '' '' (map (\<lambda>(n, u). digits n @ [u]) toks)"
  let ?found = "map (\<lambda>(n, u). [digits n, [u]]) toks"
  from join_head [OF assms(1,2)] obtain ds u rest where
    ds: "numeric ds" and u: "u \<in> set ''dhm''" and t: "?t = ds @ u # rest"
    by blast
  from ds have dg: "isdigit (hd ?t)" and ne: "?t \<noteq> []"
    using hd_numeric(1) [OF ds] by (simp_all add: t numeric_def)
  have "\<not> isspace (last ?t)"
    using join_last [OF assms(1,2)] unit_char(2) by blast
  with dg ne have "strip ?t = ?t"
    by (intro strip_id) (simp_all add: digit_not_space)
  then have low: "lower (strip ?t) = ?t"
    by (simp add: join_lower [OF assms(2)])
  have "dropWhile isdigit ?t = u # rest"
    using ds unit_char(1) [OF u] by (simp add: t dropWhile_run numeric_def)
  moreover from u have "u \<noteq> CHR '':''"
    by auto
  ultimately have "re_match hms_pattern ?t = None"
    by (intro hms_no_match) simp
  then have hms: "re_match hms_pattern (lower (strip ?t)) = None"
    by (simp only: low)
  have "re_findall token_pattern ?t = ?found"
    by (simp add: re_findall_def findall_join [OF assms(2)])
  then have found: "re_findall token_pattern (lower (strip ?t)) = ?found"
    by (simp only: low)
  have some: "re_findall token_pattern (lower (strip ?t)) \<noteq> []"
    unfolding found using assms(1) by simp
  have short: "list_all (\<lambda>tok. length (tok ! 0) \<le> max_str_digits) ?found"
    using assms(3) by (induction toks) (auto simp: convertible_def)
  have "sum_list (map token_minutes ?found)
      = sum_list (map (\<lambda>(n, u). int n * weight [u]) toks)"
    by (induction toks) (auto simp: token_minutes_def digits_value_digits)
  with parse_composite [OF hms some] add_tokens_short [OF short, of 0] show ?thesis
    by (simp only: found and_then_simps add_0)
qed

lemma human_sum: "(m::int) div 1440 * 1440 + (m mod 1440) div 60 * 60 + m mod 60 = m"
proof -
  have "(m mod 1440) div 60 * 60 + (m mod 1440) mod 60 = m mod 1440"
    by simp
  moreover have "(m mod 1440) mod 60 = m mod 60"
    by (simp add: mod_mod_cancel)
  moreover have "m div 1440 * 1440 + m mod 1440 = m"
    by simp
  ultimately show ?thesis
    by linarith
qed

lemma human_parts:
  fixes d h mm :: int
  assumes "0 \<le> d" and "0 \<le> h" and "0 \<le> mm"
    and "convertible d" and "convertible h" and "convertible mm"
  shows "and_then (part d ''d'') (\<lambda>pd.
         and_then (part h ''h'') (\<lambda>ph.
         and_then (part mm ''m'') (\<lambda>pm.
           let parts = pd @ ph @ pm
           in Inr (if parts \<noteq> [] then join '' '' parts else ''0m''))))
     = (let parts = map (\<lambda>(n, u). digits n @ [u])
          (filter (\<lambda>(n, u). n \<noteq> 0) [(nat d, CHR ''d''), (nat h, CHR ''h''), (nat mm, CHR ''m'')])
        in Inr (if parts \<noteq> [] then join '' '' parts else ''0m''))"
proof -
  have "part n [u] = Inr (map (\<lambda>(n, u). digits n @ [u]) (filter (\<lambda>(n, u). n \<noteq> 0) [(nat n, u)]))"
    if "0 \<le> n" and "convertible n" for n u
    using that by (simp add: part_def str_int_nonneg)
  from this [OF assms(1,4)] this [OF assms(2,5)] this [OF assms(3,6)] show ?thesis
    by (simp add: Let_def)
qed

lemma human_tokens:
  fixes d h mm :: int
  assumes "0 \<le> d" and "0 \<le> h" and "0 \<le> mm"
  shows "sum_list (map (\<lambda>(n, u). int n * weight [u])
           (filter (\<lambda>(n, u). n \<noteq> 0) [(nat d, CHR ''d''), (nat h, CHR ''h''), (nat mm, CHR ''m'')]))
     = d * 1440 + h * 60 + mm"
    and "d \<noteq> 0 \<or> h \<noteq> 0 \<or> mm \<noteq> 0 \<Longrightarrow>
      filter (\<lambda>(n, u). n \<noteq> 0) [(nat d, CHR ''d''), (nat h, CHR ''h''), (nat mm, CHR ''m'')] \<noteq> []"
    and "\<forall>(n, u) \<in> set (filter (\<lambda>(n, u). n \<noteq> 0)
           [(nat d, CHR ''d''), (nat h, CHR ''h''), (nat mm, CHR ''m'')]). u \<in> set ''dhm''"
  using assms by (auto simp: weight_def)

lemma human_convertible:
  fixes d h mm :: int
  assumes "0 \<le> d" and "0 \<le> h" and "0 \<le> mm"
    and "convertible d" and "convertible h" and "convertible mm"
  shows "\<forall>(n, u) \<in> set (filter (\<lambda>(n, u). n \<noteq> 0)
           [(nat d, CHR ''d''), (nat h, CHR ''h''), (nat mm, CHR ''m'')]). convertible (int n)"
  using assms by auto

lemma parse_human:
  assumes "0 \<le> m" and "convertible (m div 1440)"
  shows "\<exists>t. minutes_to_human m = Inr t \<and> parse_to_minutes t = Inr (Some m)"
proof (cases "m = 0")
  case True
  have "parse_to_minutes ''0m'' = Inr (Some 0)"
    by code_simp
  with True show ?thesis
    by (simp add: minutes_to_human_def)
next
  case False
  with assms have pos: "\<not> m \<le> 0"
    by simp
  define d h mm where "d = m div 1440" and "h = (m mod 1440) div 60" and "mm = m mod 60"
  let ?toks = "filter (\<lambda>(n, u). n \<noteq> 0) [(nat d, CHR ''d''), (nat h, CHR ''h''), (nat mm, CHR ''m'')]"
  have nn: "0 \<le> d" "0 \<le> h" "0 \<le> mm"
    using assms by (simp_all add: d_def h_def mm_def)
  have "h < 100" "mm < 100"
    unfolding h_def mm_def by presburger+
  with nn assms(2) have cv: "convertible d" "convertible h" "convertible mm"
    by (simp_all add: d_def convertible_small)
  have sum: "d * 1440 + h * 60 + mm = m"
    unfolding d_def h_def mm_def by (rule human_sum)
  with pos have "d \<noteq> 0 \<or> h \<noteq> 0 \<or> mm \<noteq> 0"
    by auto
  then have ne: "?toks \<noteq> []"
    by (rule human_tokens(2) [OF nn])
  have "minutes_to_human m =
      and_then (part d ''d'') (\<lambda>pd.
      and_then (part h ''h'') (\<lambda>ph.
      and_then (part mm ''m'') (\<lambda>pm.
        let parts = pd @ ph @ pm
        in Inr (if parts \<noteq> [] then join '' '' parts else ''0m''))))"
    unfolding minutes_to_human_def d_def h_def mm_def Let_def using pos by (simp only: if_False)
  also have "\<dots> = (let parts = map (\<lambda>(n, u). digits n @ [u]) ?toks
        in Inr (if parts \<noteq> [] then join '' '' parts else ''0m''))"
    by (rule human_parts [OF nn cv])
  also have "\<dots> = Inr (join '' '' (map (\<lambda>(n, u). digits n @ [u]) ?toks))"
  proof -
    from ne have "map (\<lambda>(n, u). digits n @ [u]) ?toks \<noteq> []"
      by (simp only: map_is_Nil_conv not_False_eq_True)
    then show ?thesis
      by (simp only: Let_def if_True simp_thms)
  qed
  finally have "minutes_to_human m = Inr (join '' '' (map (\<lambda>(n, u). digits n @ [u]) ?toks))" .
  moreover have "parse_to_minutes (join '' '' (map (\<lambda>(n, u). digits n @ [u]) ?toks)) = Inr (Some m)"
    using parse_tokens [OF ne human_tokens(3) [OF nn] human_convertible [OF nn cv]]
      human_tokens(1) [OF nn] sum
    by (simp only:)
  ultimately show ?thesis
    by blast
qed

lemma convertible_zero: "convertible 0"
  by (rule convertible_small) simp_all

lemma human_raises:
  assumes "0 \<le> m" and "\<not> convertible (m div 1440)"
  shows "minutes_to_human m = Inl ValueError"
proof -
  define d where "d = m div 1440"
  from assms(2) convertible_zero have nz: "d \<noteq> 0"
    unfolding d_def by metis
  with assms(1) have pos: "\<not> m \<le> 0"
    unfolding d_def by (cases "m = 0") simp_all
  from assms(2) nz have "part d ''d'' = Inl ValueError"
    by (simp add: part_def str_int_long d_def)
  then show ?thesis
    unfolding minutes_to_human_def Let_def d_def [symmetric] using pos by simp
qed

subsection \<open>Parsing the wire formats\<close>

lemma parse_colon_text:
  assumes "numeric a" and "numeric b" and "numeric c"
    and "length a \<le> max_str_digits" and "length b \<le> max_str_digits"
    and "length c \<le> max_str_digits"
  shows "parse_to_minutes (a @ CHR '':'' # b @ CHR '':'' # c)
     = Inr (Some (digits_value a * 60 + digits_value b))"
proof -
  let ?t = "a @ CHR '':'' # b @ CHR '':'' # c"
  from assms have all: "list_all isdigit a" "list_all isdigit b" "list_all isdigit c"
    and ne: "a \<noteq> []" "c \<noteq> []"
    by (simp_all add: numeric_def)
  have "\<not> isspace (hd ?t)" and "\<not> isspace (last ?t)"
    using hd_numeric(1) [OF assms(1)] hd_numeric(2) [OF assms(3)] ne
    by (simp_all add: digit_not_space)
  then have "strip ?t = ?t"
    by (intro strip_id) simp_all
  then have low: "lower (strip ?t) = ?t"
    using all by (simp add: lower_append lower_Cons lower_digits lower_marks)
  show ?thesis
    by (simp add: parse_to_minutes_def Let_def low hms_match [OF assms(1-3)]
        py_int_short [OF assms(4)] py_int_short [OF assms(5)] py_int_short [OF assms(6)])
qed

lemma parse_day_text:
  assumes "numeric a" and "numeric b" and "numeric c" and "numeric e"
  shows "parse_to_minutes (a @ CHR ''-'' # b @ CHR '':'' # c @ CHR '':'' # e) = Inr None"
proof -
  let ?t = "a @ CHR ''-'' # b @ CHR '':'' # c @ CHR '':'' # e"
  from assms have all: "list_all isdigit a" "list_all isdigit b" "list_all isdigit c"
    "list_all isdigit e" and ne: "a \<noteq> []" "e \<noteq> []"
    by (simp_all add: numeric_def)
  have sp: "\<not> isspace (hd ?t)" "\<not> isspace (last ?t)"
    using hd_numeric(1) [OF assms(1)] hd_numeric(2) [OF assms(4)] ne
    by (simp_all add: digit_not_space)
  then have "strip ?t = ?t"
    by (intro strip_id) simp_all
  then have low: "lower (strip ?t) = ?t"
    using all by (simp add: lower_append lower_Cons lower_digits lower_marks)
  have "dropWhile isdigit ?t = CHR ''-'' # b @ CHR '':'' # c @ CHR '':'' # e"
    using all(1) by (simp add: dropWhile_run marks_not_digit)
  then have hms: "re_match hms_pattern ?t = None"
    by (intro hms_no_match) simp
  have nd: "\<forall>x \<in> set s. x \<notin> set ''dhm''" if "list_all isdigit s" for s
    using that marks_not_digit(1-3) by (induction s) auto
  have "\<forall>x \<in> set ?t. x \<notin> set ''dhm''"
    using nd [OF all(1)] nd [OF all(2)] nd [OF all(3)] nd [OF all(4)]
    by (simp add: ball_Un)
  then have toks: "re_findall token_pattern ?t = []"
    by (simp add: re_findall_def findall_none)
  have num: "re_match number_pattern ?t = None"
  proof (rule ccontr)
    assume "re_match number_pattern ?t \<noteq> None"
    with sp(2) have "list_all isdigit ?t"
      using number_pattern_only_digits [of ?t] by blast
    then show False
      by (simp add: marks_not_digit)
  qed
  show ?thesis
    by (simp add: parse_to_minutes_def Let_def low hms toks num)
qed

lemma zero_numeric:
  "numeric ''0''" "numeric ''00''" "length ''0'' \<le> max_str_digits" "length ''00'' \<le> max_str_digits"
  by (simp_all add: numeric_def isdigit_def max_str_digits_def)

lemma convertible_length:
  assumes "0 \<le> n" and "convertible n"
  shows "length (digits (nat n)) \<le> max_str_digits"
  using assms by (simp add: convertible_def)

lemma parse_hms:
  assumes "0 \<le> m" and "convertible (m div 60)"
  shows "\<exists>t. minutes_to_hms m = Inr t \<and> parse_to_minutes t = Inr (Some m)"
proof -
  define h mn where "h = m div 60" and "mn = m mod 60"
  have nn: "0 \<le> h" "0 \<le> mn"
    using assms by (simp_all add: h_def mn_def)
  have "mn < 100"
    unfolding mn_def by presburger
  with nn assms(2) have cv: "convertible h" "convertible mn"
    by (simp_all add: h_def convertible_small)
  have sum: "h * 60 + mn = m"
    by (simp add: h_def mn_def)
  have "minutes_to_hms m = Inr (digits (nat h) @ CHR '':'' # digits (nat mn) @ CHR '':'' # ''0'')"
    unfolding minutes_to_hms_def Let_def h_def [symmetric] mn_def [symmetric]
    by (simp add: str_int_nonneg nn cv)
  moreover have "parse_to_minutes (digits (nat h) @ CHR '':'' # digits (nat mn) @ CHR '':'' # ''0'')
      = Inr (Some m)"
    using parse_colon_text [OF digits_numeric digits_numeric zero_numeric(1)
        convertible_length [OF nn(1) cv(1)] convertible_length [OF nn(2) cv(2)] zero_numeric(3)]
      nn sum
    by (simp add: digits_value_digits)
  ultimately show ?thesis
    by blast
qed

lemma hms_raises:
  assumes "\<not> convertible (m div 60)"
  shows "minutes_to_hms m = Inl ValueError"
  using assms by (simp add: minutes_to_hms_def Let_def str_int_long)

lemma parse_slurm_hours:
  assumes "0 \<le> m" and "m < 1440"
  shows "\<exists>t. minutes_to_slurm m = Inr t \<and> parse_to_minutes t = Inr (Some m)"
proof -
  define h mn where "h = m div 60" and "mn = m mod 60"
  have nn: "0 \<le> h" "0 \<le> mn" and small: "\<not> 24 \<le> h"
    using assms by (simp_all add: h_def mn_def)
  have lt: "h < 100" "mn < 100"
    using small unfolding mn_def by presburger+
  have sum: "h * 60 + mn = m"
    by (simp add: h_def mn_def)
  from fmt_02d_small [OF nn(1) lt(1)] obtain th where
    th: "fmt_02d h = Inr th" "numeric th" "length th = 2" "digits_value th = h"
    by blast
  from fmt_02d_small [OF nn(2) lt(2)] obtain tm where
    tm: "fmt_02d mn = Inr tm" "numeric tm" "length tm = 2" "digits_value tm = mn"
    by blast
  have two: "length th \<le> max_str_digits" "length tm \<le> max_str_digits"
    using th(3) tm(3) max_str_digits_ge by simp_all
  have "minutes_to_slurm m = Inr (th @ CHR '':'' # tm @ CHR '':'' # ''00'')"
    unfolding minutes_to_slurm_def Let_def h_def [symmetric] mn_def [symmetric]
    using small by (simp add: th(1) tm(1))
  moreover have "parse_to_minutes (th @ CHR '':'' # tm @ CHR '':'' # ''00'') = Inr (Some m)"
    using parse_colon_text [OF th(2) tm(2) zero_numeric(2) two zero_numeric(4)] sum
    by (simp add: th(4) tm(4))
  ultimately show ?thesis
    by blast
qed

lemma day_quotient: "(m::int) div 60 div 24 = m div 1440"
  by (simp add: zdiv_zmult2_eq [symmetric])

lemma parse_slurm_days:
  assumes "1440 \<le> m" and "convertible (m div 1440)"
  shows "\<exists>t. minutes_to_slurm m = Inr t \<and> parse_to_minutes t = Inr None"
proof -
  define h mn where "h = m div 60" and "mn = m mod 60"
  define d rh where "d = h div 24" and "rh = h mod 24"
  have big: "24 \<le> h"
    using assms(1) by (simp add: h_def)
  then have nn: "0 \<le> d" "0 \<le> rh" "0 \<le> mn"
    by (simp_all add: d_def rh_def mn_def)
  have lt: "rh < 100" "mn < 100"
    unfolding rh_def mn_def by presburger+
  have cv: "convertible d"
    using assms(2) by (simp add: d_def h_def day_quotient)
  from fmt_02d_small [OF nn(2) lt(1)] obtain th where th: "fmt_02d rh = Inr th" "numeric th"
    by blast
  from fmt_02d_small [OF nn(3) lt(2)] obtain tm where tm: "fmt_02d mn = Inr tm" "numeric tm"
    by blast
  have "minutes_to_slurm m
      = Inr (digits (nat d) @ CHR ''-'' # th @ CHR '':'' # tm @ CHR '':'' # ''00'')"
    unfolding minutes_to_slurm_def Let_def h_def [symmetric] mn_def [symmetric]
      d_def [symmetric] rh_def [symmetric]
    using big by (simp add: str_int_nonneg nn cv th(1) tm(1))
  moreover have "parse_to_minutes (digits (nat d) @ CHR ''-'' # th @ CHR '':'' # tm @ CHR '':'' # ''00'')
      = Inr None"
    by (rule parse_day_text [OF digits_numeric th(2) tm(2) zero_numeric(2)])
  ultimately show ?thesis
    by blast
qed

lemma slurm_raises:
  assumes "0 \<le> m" and "\<not> convertible (m div 1440)"
  shows "minutes_to_slurm m = Inl ValueError"
proof -
  define h mn where "h = m div 60" and "mn = m mod 60"
  define d rh where "d = h div 24" and "rh = h mod 24"
  have d: "d = m div 1440"
    by (simp add: d_def h_def day_quotient)
  with assms(2) convertible_zero have "d \<noteq> 0"
    by metis
  moreover have "0 \<le> h"
    using assms(1) by (simp add: h_def)
  ultimately have big: "24 \<le> h"
    unfolding d_def by (cases "h < 24") simp_all
  from assms(2) d have "str_int d = Inl ValueError"
    by (simp add: str_int_long)
  then show ?thesis
    unfolding minutes_to_slurm_def Let_def h_def [symmetric] mn_def [symmetric]
      d_def [symmetric] rh_def [symmetric]
    using big by simp
qed

subsection \<open>Every parsed duration is non-negative\<close>

lemma rmatch_Bos_SomeD:
  assumes "rmatch (Bos # its) i s g = Some r"
  shows "rmatch its i s g = Some r"
  using assms by (auto split: if_splits)

lemma hms_pattern_groups:
  assumes "re_match hms_pattern t = Some g"
  shows "\<exists>a b c. g = [a, b, c] \<and> numeric a \<and> numeric b \<and> numeric c"
proof -
  from assms obtain e where
    "rmatch (Bos # [Grp_plus Digit, Chr colon, Grp_plus Digit, Chr colon, Grp_plus Digit, Eos])
       0 t [] = Some (g, e)"
    by (auto simp: re_match_def hms_pattern_def simp del: rmatch.simps)
  from rmatch_Bos_SomeD [OF this]
  have "rmatch (Grp_plus Digit # [Chr colon, Grp_plus Digit, Chr colon, Grp_plus Digit, Eos])
       0 t [] = Some (g, e)" .
  from rmatch_Grp_plus_SomeD [OF this] obtain k1 where
    k1: "1 \<le> k1" "k1 \<le> length (takeWhile (has Digit) t)" and
    "rmatch (Chr colon # [Grp_plus Digit, Chr colon, Grp_plus Digit, Eos]) (0 + k1) (drop k1 t)
       ([] @ [take k1 t]) = Some (g, e)"
    by blast
  from rmatch_Chr_SomeD [OF this(3)] obtain i2 t2 where
    "rmatch (Grp_plus Digit # [Chr colon, Grp_plus Digit, Eos]) i2 t2 ([] @ [take k1 t])
       = Some (g, e)"
    by blast
  from rmatch_Grp_plus_SomeD [OF this] obtain k2 where
    k2: "1 \<le> k2" "k2 \<le> length (takeWhile (has Digit) t2)" and
    "rmatch (Chr colon # [Grp_plus Digit, Eos]) (i2 + k2) (drop k2 t2)
       (([] @ [take k1 t]) @ [take k2 t2]) = Some (g, e)"
    by blast
  from rmatch_Chr_SomeD [OF this(3)] obtain i3 t3 where
    "rmatch (Grp_plus Digit # [Eos]) i3 t3 (([] @ [take k1 t]) @ [take k2 t2]) = Some (g, e)"
    by blast
  from rmatch_Grp_plus_SomeD [OF this] obtain k3 where
    k3: "1 \<le> k3" "k3 \<le> length (takeWhile (has Digit) t3)" and
    "rmatch [Eos] (i3 + k3) (drop k3 t3) ((([] @ [take k1 t]) @ [take k2 t2]) @ [take k3 t3])
       = Some (g, e)"
    by blast
  then have "g = [take k1 t, take k2 t2, take k3 t3]"
    by (auto split: if_splits)
  moreover have "numeric (take k1 t)" "numeric (take k2 t2)" "numeric (take k3 t3)"
    using k1 k2 k3 by (simp_all add: take_numeric has_Digit)
  ultimately show ?thesis
    by blast
qed

lemma isspace_lower_char: "isspace (lower_char c) = isspace c"
proof -
  let ?n = "of_char c :: nat"
  show ?thesis
  proof (cases "(65 \<le> ?n \<and> ?n \<le> 90) \<or> (192 \<le> ?n \<and> ?n \<le> 222 \<and> ?n \<noteq> 215)")
    case False
    then have "lower_char c = c"
      unfolding lower_char_def Let_def by (simp only: if_False)
    then show ?thesis
      by simp
  next
    case True
    then have l: "lower_char c = char_of (?n + 32)"
      by (simp add: lower_char_def Let_def)
    from True have "?n + 32 < 256"
      by linarith
    then have "of_char (lower_char c) = ?n + 32"
      by (simp add: l)
    with True show ?thesis
      unfolding isspace_def by auto
  qed
qed

lemma numeric_nonneg:
  assumes "numeric s"
  shows "0 \<le> digits_value s"
  using assms by (simp add: numeric_def digits_value_nonneg)

lemma token_minutes_nonneg:
  assumes "is_token tok"
  shows "0 \<le> token_minutes tok"
  using assms by (simp add: is_token_def token_minutes_def weight_def numeric_nonneg)

lemma tokens_nonneg:
  assumes "list_all is_token toks"
  shows "0 \<le> sum_list (map token_minutes toks)"
  using assms by (induction toks) (simp_all add: token_minutes_nonneg)

lemma py_int_InrD:
  assumes "py_int s = Inr v"
  shows "v = digits_value s"
  using assms by (auto simp: py_int_def split: if_splits)

lemma and_then_InrD:
  assumes "and_then r f = Inr y"
  shows "\<exists>x. r = Inr x \<and> f x = Inr y"
  using assms by (cases r) simp_all

lemma parse_nonneg:
  assumes "parse_to_minutes s = Inr (Some n)"
  shows "0 \<le> n"
proof -
  let ?t = "lower (strip s)"
  let ?toks = "re_findall token_pattern ?t"
  from assms have ne: "?t \<noteq> []"
    by (auto simp: parse_to_minutes_def Let_def split: if_splits)
  show ?thesis
  proof (cases "re_match hms_pattern ?t")
    case (Some g)
    from hms_pattern_groups [OF Some] obtain a b c where
      g: "g = [a, b, c]" and num: "numeric a" "numeric b" "numeric c"
      by blast
    from assms ne Some g have
      "and_then (py_int a) (\<lambda>h. and_then (py_int b) (\<lambda>mn. and_then (py_int c) (\<lambda>sec.
         Inr (Some (h * 60 + mn))))) = Inr (Some n)"
      by (simp add: parse_to_minutes_def Let_def)
    from and_then_InrD [OF this] obtain h where
      h: "py_int a = Inr h" and
      "and_then (py_int b) (\<lambda>mn. and_then (py_int c) (\<lambda>sec. Inr (Some (h * 60 + mn))))
         = Inr (Some n)"
      by blast
    from and_then_InrD [OF this(2)] obtain mn where
      mn: "py_int b = Inr mn" and
      "and_then (py_int c) (\<lambda>sec. Inr (Some (h * 60 + mn))) = Inr (Some n)"
      by blast
    from and_then_InrD [OF this(2)] have n: "n = h * 60 + mn"
      by auto
    from py_int_InrD [OF h] py_int_InrD [OF mn] numeric_nonneg [OF num(1)] numeric_nonneg [OF num(2)]
    have "0 \<le> h" and "0 \<le> mn"
      by simp_all
    with n show ?thesis
      by simp
  next
    case None
    show ?thesis
    proof (cases "?toks = []")
      case False
      from parse_composite [OF None False] assms have
        "and_then (add_tokens 0 ?toks) (\<lambda>tot. Inr (Some tot)) = Inr (Some n)"
        by simp
      from and_then_InrD [OF this] have tot: "add_tokens 0 ?toks = Inr n"
        by auto
      have "list_all (\<lambda>tok. length (tok ! 0) \<le> max_str_digits) ?toks"
      proof (rule ccontr)
        assume "\<not> list_all (\<lambda>tok. length (tok ! 0) \<le> max_str_digits) ?toks"
        from add_tokens_long [OF this, of 0] tot show False
          by simp
      qed
      from add_tokens_short [OF this, of 0] tot have "n = sum_list (map token_minutes ?toks)"
        by simp
      then show ?thesis
        using tokens_nonneg [OF findall_tokens, of 0 ?t] by (simp add: re_findall_def)
    next
      case True
      with None assms ne have m: "re_match number_pattern ?t \<noteq> None"
        and v: "and_then (py_int ?t) (\<lambda>v. Inr (Some (v * 60))) = Inr (Some n)"
        by (auto simp: parse_to_minutes_def Let_def split: if_splits)
      from and_then_InrD [OF v] obtain v where "py_int ?t = Inr v" and n: "n = v * 60"
        by auto
      from py_int_InrD [OF this(1)] have val: "v = digits_value ?t" .
      from ne have "strip s \<noteq> []"
        by (simp add: lower_def)
      then have "\<not> isspace (last ?t)"
        using strip_last [of s] by (simp add: lower_def last_map isspace_lower_char)
      with m have "list_all isdigit ?t"
        using number_pattern_only_digits [of ?t] by blast
      with n val show ?thesis
        by (simp add: digits_value_nonneg)
    qed
  qed
qed

text \<open>
  C2 as it stands does not hold. The day form of the SLURM time is not read back: 1500
  minutes are written as \<open>1-01:00:00\<close>, which has no value for the parser. And a rendering
  raises ValueError when its leading number has more than 4300 digits, as
  \<open>minutes_to_hms\<close> does on sixty times the 4300th power of ten.
\<close>

theorem round_trip_breaks:
  "minutes_to_slurm 1500 = Inr ''1-01:00:00'' \<and>
   parse_to_minutes ''1-01:00:00'' = Inr None \<and>
   minutes_to_hms (60 * 10 ^ max_str_digits) = Inl ValueError"
proof -
  have "minutes_to_slurm 1500 = Inr ''1-01:00:00''" and "parse_to_minutes ''1-01:00:00'' = Inr None"
    by code_simp+
  moreover have "\<not> convertible ((60 * 10 ^ max_str_digits) div 60)"
    using not_convertible_power [of "10 ^ max_str_digits"] by simp
  then have "minutes_to_hms (60 * 10 ^ max_str_digits) = Inl ValueError"
    by (rule hms_raises)
  ultimately show ?thesis
    by (intro conjI)
qed

text \<open>
  C2, as the code has it, for every non-negative number of minutes \<open>m\<close>. When \<open>m div 1440\<close>,
  the number of days, has at most 4300 digits, \<open>minutes_to_human(m)\<close> returns a text that
  parses to \<open>m\<close> again; when \<open>m div 60\<close>, the number of hours, has at most 4300 digits,
  \<open>minutes_to_hms(m)\<close> returns a text that parses to \<open>m\<close> again. When \<open>m\<close> is less than
  1440, a day, \<open>minutes_to_slurm(m)\<close> returns a text that parses to \<open>m\<close> again; from a day
  on it returns a text of the form D-HH:MM:00, which the parser does not accept. Beyond
  4300 digits the renderings raise ValueError. For every text that parses to \<open>n\<close> minutes
  with a number of days within the limit, the human rendering of \<open>n\<close> parses to \<open>n\<close> again.
\<close>

theorem duration_round_trip:
  "(0 \<le> m \<longrightarrow>
      (convertible (m div 1440) \<longrightarrow>
         (\<exists>t. minutes_to_human m = Inr t \<and> parse_to_minutes t = Inr (Some m))) \<and>
      (convertible (m div 60) \<longrightarrow>
         (\<exists>t. minutes_to_hms m = Inr t \<and> parse_to_minutes t = Inr (Some m))) \<and>
      (m < 1440 \<longrightarrow>
         (\<exists>t. minutes_to_slurm m = Inr t \<and> parse_to_minutes t = Inr (Some m))) \<and>
      (1440 \<le> m \<and> convertible (m div 1440) \<longrightarrow>
         (\<exists>t. minutes_to_slurm m = Inr t \<and> parse_to_minutes t = Inr None)) \<and>
      (\<not> convertible (m div 1440) \<longrightarrow>
         minutes_to_human m = Inl ValueError \<and> minutes_to_slurm m = Inl ValueError) \<and>
      (\<not> convertible (m div 60) \<longrightarrow> minutes_to_hms m = Inl ValueError)) \<and>
   (parse_to_minutes s = Inr (Some n) \<and> convertible (n div 1440) \<longrightarrow>
      (\<exists>t. minutes_to_human n = Inr t \<and> parse_to_minutes t = Inr (Some n)))"
  using parse_human [of m] parse_hms [of m] parse_slurm_hours [of m] parse_slurm_days [of m]
    human_raises [of m] slurm_raises [of m] hms_raises [of m]
    parse_nonneg [of s n] parse_human [of n]
  by blast

theorem duration_round_trip_witness:
  "(\<exists>t. minutes_to_human 1830 = Inr t \<and> parse_to_minutes t = Inr (Some 1830)) \<and>
   (\<exists>t. minutes_to_hms 1830 = Inr t \<and> parse_to_minutes t = Inr (Some 1830)) \<and>
   (\<exists>t. minutes_to_slurm 1439 = Inr t \<and> parse_to_minutes t = Inr (Some 1439)) \<and>
   (\<exists>t. minutes_to_slurm 1830 = Inr t \<and> parse_to_minutes t = Inr None) \<and>
   (\<exists>t. minutes_to_human 150 = Inr t \<and> parse_to_minutes t = Inr (Some 150)) \<and>
   minutes_to_human (1440 * 10 ^ max_str_digits) = Inl ValueError"
proof -
  have p: "parse_to_minutes ''2h 30m'' = Inr (Some 150)"
    by code_simp
  have c: "convertible (1830 div 1440)" "convertible (1830 div 60)" "convertible (150 div 1440)"
    "convertible (1439 div 1440)" "convertible (1439 div 60)"
    by code_simp+
  have big: "\<not> convertible ((1440 * 10 ^ max_str_digits) div 1440)"
    using not_convertible_power [of "10 ^ max_str_digits"] by simp
  have nn: "(0::int) \<le> 1440 * 10 ^ max_str_digits"
    by simp
  note a = duration_round_trip [of 1830 "''2h 30m''" 150]
  note b = duration_round_trip [of 1439 "''2h 30m''" 150]
  note d = duration_round_trip [of "1440 * 10 ^ max_str_digits" "''2h 30m''" 150]
  from a c p have
    "\<exists>t. minutes_to_human 1830 = Inr t \<and> parse_to_minutes t = Inr (Some 1830)"
    "\<exists>t. minutes_to_hms 1830 = Inr t \<and> parse_to_minutes t = Inr (Some 1830)"
    "\<exists>t. minutes_to_slurm 1830 = Inr t \<and> parse_to_minutes t = Inr None"
    "\<exists>t. minutes_to_human 150 = Inr t \<and> parse_to_minutes t = Inr (Some 150)"
    by simp_all
  moreover from b have
    "\<exists>t. minutes_to_slurm 1439 = Inr t \<and> parse_to_minutes t = Inr (Some 1439)"
    by simp
  moreover from d big nn have "minutes_to_human (1440 * 10 ^ max_str_digits) = Inl ValueError"
    by blast
  ultimately show ?thesis
    by (intro conjI)
qed

end
